theory Spec2Isabelle
  imports Main "HOL-Library.Word" "HOL-Library.Char_ord" "HOL-Library.List_Lexorder"
begin

unbundle bit_operations_syntax

section \<open>Parsed YAML values\<close>

text \<open>
  The values \<open>yaml.safe_load\<close> hands to the two ingestion scripts: null, booleans,
  integers, strings, sequences and mappings. A mapping keeps its entries in insertion
  order, as a Python \<open>dict\<close> does; its keys are strings and pairwise distinct
  (\<open>wf_yaml\<close>). A string is a list of code points below 256. Floats and timestamps
  are left out.
\<close>

datatype yaml =
    YNull
  | YBool bool
  | YInt int
  | YStr string
  | YList "yaml list"
  | YDict "(string \<times> yaml) list"


text \<open>Python's truth value of a parsed object, as \<open>if not question_type\<close> reads it.\<close>

fun truthy :: "yaml \<Rightarrow> bool" where
  "truthy YNull = False"
| "truthy (YBool b) = b"
| "truthy (YInt i) = (i \<noteq> 0)"
| "truthy (YStr s) = (s \<noteq> [])"
| "truthy (YList xs) = (xs \<noteq> [])"
| "truthy (YDict kvs) = (kvs \<noteq> [])"

text \<open>\<open>d.get(k)\<close> on a mapping: the value, or \<open>None\<close>.\<close>

definition dict_get :: "(string \<times> yaml) list \<Rightarrow> string \<Rightarrow> yaml" where
  "dict_get kvs k = (case map_of kvs k of None \<Rightarrow> YNull | Some v \<Rightarrow> v)"

section \<open>Canonical serialisation: \<open>json.dumps(data, sort_keys=True, separators=(",", ":"))\<close>\<close>

definition hex_digit :: "nat \<Rightarrow> char" where
  "hex_digit n = (if n < 10 then char_of (48 + n) else char_of (87 + n))"

text \<open>Decimal digits of a non-negative integer, most significant first.\<close>

function show_nat :: "int \<Rightarrow> string" where
  "show_nat n = (if n < 10 then [char_of (48 + n)] else show_nat (n div 10) @ [char_of (48 + n mod 10)])"
  by pat_completeness auto
termination
  by (relation "measure nat") auto

declare show_nat.simps [simp del]

definition show_int :: "int \<Rightarrow> string" where
  "show_int i = (if i < 0 then CHR ''-'' # show_nat (- i) else show_nat i)"

text \<open>
  \<open>ensure_ascii\<close> is left at its default: the quote and the backslash are escaped,
  the five short escapes are used, and every other code point outside \<open>' '..'~'\<close>
  becomes \<open>\u00XX\<close>.
\<close>

definition json_escape_char :: "char \<Rightarrow> string" where
  "json_escape_char c =
     (if c = CHR 0x22 then [CHR 0x5C, CHR 0x22]
      else if c = CHR 0x5C then [CHR 0x5C, CHR 0x5C]
      else if c = CHR 0x0A then [CHR 0x5C, CHR ''n'']
      else if c = CHR 0x0D then [CHR 0x5C, CHR ''r'']
      else if c = CHR 0x09 then [CHR 0x5C, CHR ''t'']
      else if c = CHR 0x08 then [CHR 0x5C, CHR ''b'']
      else if c = CHR 0x0C then [CHR 0x5C, CHR ''f'']
      else if 32 \<le> (of_char c :: nat) \<and> (of_char c :: nat) \<le> 126 then [c]
      else [CHR 0x5C, CHR ''u'', CHR ''0'', CHR ''0'',
            hex_digit ((of_char c :: nat) div 16), hex_digit ((of_char c :: nat) mod 16)])"

definition json_str :: "string \<Rightarrow> string" where
  "json_str s = CHR 0x22 # concat (map json_escape_char s) @ [CHR 0x22]"

fun join :: "string \<Rightarrow> string list \<Rightarrow> string" where
  "join sep [] = []"
| "join sep [x] = x"
| "join sep (x # y # ys) = x @ sep @ join sep (y # ys)"

fun json_dumps :: "yaml \<Rightarrow> string" where
  "json_dumps YNull = ''null''"
| "json_dumps (YBool b) = (if b then ''true'' else ''false'')"
| "json_dumps (YInt i) = show_int i"
| "json_dumps (YStr s) = json_str s"
| "json_dumps (YList xs) = ''['' @ join '','' (map json_dumps xs) @ '']''"
| "json_dumps (YDict kvs) =
     ''{'' @ join '','' (map (\<lambda>kv. json_str (fst kv) @ '':'' @ json_dumps (snd kv)) (sort_key fst kvs)) @ ''}''"

section \<open>SHA-256 (\<open>hashlib.sha256(...).hexdigest()\<close>)\<close>

type_synonym u32 = "32 word"

text \<open>The sixty-four round constants (the fractional parts of the cube roots of the
  first primes), in decimal.\<close>

definition K256 :: "u32 list" where
  "K256 =
    [
     1116352408, 1899447441, 3049323471, 3921009573, 961987163, 1508970993,
     2453635748, 2870763221, 3624381080, 310598401, 607225278, 1426881987,
     1925078388, 2162078206, 2614888103, 3248222580, 3835390401, 4022224774,
     264347078, 604807628, 770255983, 1249150122, 1555081692, 1996064986,
     2554220882, 2821834349, 2952996808, 3210313671, 3336571891, 3584528711,
     113926993, 338241895, 666307205, 773529912, 1294757372, 1396182291,
     1695183700, 1986661051, 2177026350, 2456956037, 2730485921, 2820302411,
     3259730800, 3345764771, 3516065817, 3600352804, 4094571909, 275423344,
     430227734, 506948616, 659060556, 883997877, 958139571, 1322822218,
     1537002063, 1747873779, 1955562222, 2024104815, 2227730452, 2361852424,
     2428436474, 2756734187, 3204031479, 3329325298]"

type_synonym sha_state = "u32 \<times> u32 \<times> u32 \<times> u32 \<times> u32 \<times> u32 \<times> u32 \<times> u32"

definition sha_init :: sha_state where
  "sha_init = (1779033703, 3144134277, 1013904242, 2773480762,
               1359893119, 2600822924, 528734635, 1541459225)"

definition Ch :: "u32 \<Rightarrow> u32 \<Rightarrow> u32 \<Rightarrow> u32" where
  "Ch x y z = (x AND y) XOR (NOT x AND z)"

definition Maj :: "u32 \<Rightarrow> u32 \<Rightarrow> u32 \<Rightarrow> u32" where
  "Maj x y z = (x AND y) XOR (x AND z) XOR (y AND z)"

definition bsig0 :: "u32 \<Rightarrow> u32" where
  "bsig0 x = word_rotr 2 x XOR word_rotr 13 x XOR word_rotr 22 x"

definition bsig1 :: "u32 \<Rightarrow> u32" where
  "bsig1 x = word_rotr 6 x XOR word_rotr 11 x XOR word_rotr 25 x"

definition ssig0 :: "u32 \<Rightarrow> u32" where
  "ssig0 x = word_rotr 7 x XOR word_rotr 18 x XOR drop_bit 3 x"

definition ssig1 :: "u32 \<Rightarrow> u32" where
  "ssig1 x = word_rotr 17 x XOR word_rotr 19 x XOR drop_bit 10 x"

text \<open>Padding: a one bit, zeros up to 56 modulo 64 bytes, the bit length in 64 bits.\<close>

definition be_bytes64 :: "64 word \<Rightarrow> 8 word list" where
  "be_bytes64 n = map (\<lambda>i. ucast (drop_bit (8 * (7 - i)) n)) [0..<8]"

definition sha_pad :: "8 word list \<Rightarrow> 8 word list" where
  "sha_pad bs =
     bs @ [128] @ replicate ((119 - length bs mod 64) mod 64) 0
        @ be_bytes64 (word_of_nat (8 * length bs))"

fun be_words :: "8 word list \<Rightarrow> u32 list" where
  "be_words (a # b # c # d # rest) =
     (push_bit 24 (ucast a) OR push_bit 16 (ucast b) OR push_bit 8 (ucast c) OR ucast d)
       # be_words rest"
| "be_words _ = []"

fun sha_schedule :: "nat \<Rightarrow> u32 list \<Rightarrow> u32 list" where
  "sha_schedule 0 ws = ws"
| "sha_schedule (Suc n) ws =
     sha_schedule n
       (ws @ [ssig1 (ws ! (length ws - 2)) + ws ! (length ws - 7)
              + ssig0 (ws ! (length ws - 15)) + ws ! (length ws - 16)])"

definition sha_round :: "sha_state \<Rightarrow> u32 \<times> u32 \<Rightarrow> sha_state" where
  "sha_round s kw =
     (case s of (a, b, c, d, e, f, g, h) \<Rightarrow>
        let t1 = h + bsig1 e + Ch e f g + fst kw + snd kw;
            t2 = bsig0 a + Maj a b c
        in (t1 + t2, a, b, c, d + t1, e, f, g))"

definition sha_add :: "sha_state \<Rightarrow> sha_state \<Rightarrow> sha_state" where
  "sha_add s t =
     (case s of (a, b, c, d, e, f, g, h) \<Rightarrow>
      case t of (a', b', c', d', e', f', g', h') \<Rightarrow>
        (a + a', b + b', c + c', d + d', e + e', f + f', g + g', h + h'))"

definition sha_compress :: "sha_state \<Rightarrow> u32 list \<Rightarrow> sha_state" where
  "sha_compress s block = sha_add s (foldl sha_round s (zip K256 (sha_schedule 48 block)))"

fun sha_blocks :: "nat \<Rightarrow> sha_state \<Rightarrow> u32 list \<Rightarrow> sha_state" where
  "sha_blocks 0 s ws = s"
| "sha_blocks (Suc n) s ws = sha_blocks n (sha_compress s (take 16 ws)) (drop 16 ws)"

definition hex_word :: "u32 \<Rightarrow> string" where
  "hex_word w = map (\<lambda>i. hex_digit (unat (drop_bit (4 * (7 - i)) w AND 15))) [0..<8]"

definition sha256_hex :: "string \<Rightarrow> string" where
  "sha256_hex s =
     (let ws = be_words (sha_pad (map of_char s))
      in case sha_blocks (length ws div 16) sha_init ws of
           (a, b, c, d, e, f, g, h) \<Rightarrow>
             hex_word a @ hex_word b @ hex_word c @ hex_word d @
             hex_word e @ hex_word f @ hex_word g @ hex_word h)"

text \<open>\<open>hash_content\<close>, the same in both scripts. The serialisation is ASCII, so
  \<open>encode("utf-8")\<close> yields one byte per character.\<close>

definition hash_content :: "yaml \<Rightarrow> string" where
  "hash_content data = sha256_hex (json_dumps data)"

section \<open>The store, the log and the corpus\<close>

text \<open>
  Rows are the dictionaries the scripts build. The question row's fields that share a
  name with a content row's carry the prefix \<open>q_\<close>.
\<close>

record content_row =
  subtopic_id :: nat
  difficulty :: string
  title :: yaml
  summary :: yaml
  content_json :: yaml
  content_hash :: string
  is_published :: bool

record question_row =
  q_subtopic_id :: nat
  q_difficulty :: string
  question_type :: yaml
  q_content_json :: yaml
  question_hash :: string
  q_is_published :: bool

datatype exn = YAMLError | TypeError | AttributeError | KeyError | APIError

datatype level = INFO | WARNING | ERROR

text \<open>The log messages of the two scripts; a file is named by its topic and subtopic.\<close>

datatype message =
    Processing_topic string nat
  | Processing_subtopic string nat
  | No_level_file string
  | Invalid_YAML_structure string string
  | Failed_to_parse string string
  | Skipping_question string string
  | Upsert_failed string
  | Retrying_in nat
  | Inserted_final_chunks nat
  | Inserted_final_questions nat string
  | Ingestion_completed

text \<open>
  What a run does to the outside, in order: log lines, the pauses of the retry
  decorator, and every upsert request sent for a batch, with whether the store accepted
  it.
\<close>

datatype event =
    Log level message
  | Sleep nat
  | Content_request "content_row list" bool
  | Question_request "question_row list" bool

text \<open>
  The four tables, keyed by their unique columns: \<open>topics\<close> by \<open>topic_name\<close>,
  \<open>subtopics\<close> by \<open>(topic_id, subtopic_name)\<close>, \<open>content\<close> by
  \<open>(subtopic_id, difficulty)\<close>, \<open>questions\<close> by \<open>question_hash\<close>. The store
  numbers new topics and subtopics itself. \<open>faults\<close> is the fate of the coming batch
  upsert attempts, one flag each (\<open>True\<close>: the attempt raises); past its end every
  attempt succeeds.
\<close>

record world =
  topics :: "string \<rightharpoonup> nat"
  subtopics :: "nat \<times> string \<rightharpoonup> nat"
  content :: "nat \<times> string \<rightharpoonup> content_row"
  questions :: "string \<rightharpoonup> question_row"
  next_topic_id :: nat
  next_subtopic_id :: nat
  faults :: "bool list"
  trace :: "event list"

text \<open>
  The corpus under \<open>CONTENT_ROOT\<close>: topic folders, their subtopic folders, and for
  each subtopic what opening and parsing its per-level file gives.
\<close>

datatype level_file = Missing | Unparsable | Parsed yaml

type_synonym subtopic_folder = "string \<times> level_file"
type_synonym topic_folder = "string \<times> subtopic_folder list"

definition logging :: "level \<Rightarrow> message \<Rightarrow> world \<Rightarrow> world" where
  "logging l m w = w\<lparr>trace := trace w @ [Log l m]\<rparr>"

section \<open>Control flow\<close>

text \<open>A \<open>for\<close> loop whose body may raise: the exception leaves the loop at once.\<close>

fun for_each :: "('a \<Rightarrow> 's \<Rightarrow> exn option \<times> 's) \<Rightarrow> 'a list \<Rightarrow> 's \<Rightarrow> exn option \<times> 's" where
  "for_each body [] s = (None, s)"
| "for_each body (x # xs) s =
     (case body x s of
        (Some e, s') \<Rightarrow> (Some e, s')
      | (None, s') \<Rightarrow> for_each body xs s')"

text \<open>
  The decorator \<open>@retry(tries, delay)\<close>: call again after a failure, pausing
  \<open>delay\<close> seconds and logging a warning, until \<open>tries\<close> calls have failed; the last
  failure is raised.
\<close>

fun retry :: "nat \<Rightarrow> nat \<Rightarrow> (world \<Rightarrow> exn option \<times> world) \<Rightarrow> world \<Rightarrow> exn option \<times> world" where
  "retry 0 delay f w = (None, w)"
| "retry (Suc n) delay f w =
     (case f w of
        (None, w') \<Rightarrow> (None, w')
      | (Some e, w') \<Rightarrow>
          if n = 0 then (Some e, w')
          else retry n delay f (w'\<lparr>trace := trace w' @ [Log WARNING (Retrying_in delay), Sleep delay]\<rparr>))"

section \<open>Shared constants and the hierarchy resolver\<close>

definition BATCH_SIZE :: nat where
  "BATCH_SIZE = 10"

definition MAX_RETRIES :: nat where
  "MAX_RETRIES = 3"

definition attempt_fails :: "world \<Rightarrow> bool" where
  "attempt_fails w = (case faults w of [] \<Rightarrow> False | b # _ \<Rightarrow> b)"

text \<open>
  \<open>get_or_create_topic\<close> and \<open>get_or_create_subtopic\<close> (the same in both scripts): an
  upsert on the unique name, which leaves an existing row alone, then the lookup of
  its id. These two requests always succeed here.
\<close>

definition get_or_create_topic :: "string \<Rightarrow> world \<Rightarrow> nat \<times> world" where
  "get_or_create_topic topic_name w =
     (case topics w topic_name of
        Some topic_id \<Rightarrow> (topic_id, w)
      | None \<Rightarrow>
          (next_topic_id w,
           w\<lparr>topics := (topics w)(topic_name \<mapsto> next_topic_id w),
             next_topic_id := Suc (next_topic_id w)\<rparr>))"

definition get_or_create_subtopic :: "nat \<Rightarrow> string \<Rightarrow> world \<Rightarrow> nat \<times> world" where
  "get_or_create_subtopic topic_id subtopic_name w =
     (case subtopics w (topic_id, subtopic_name) of
        Some sid \<Rightarrow> (sid, w)
      | None \<Rightarrow>
          (next_subtopic_id w,
           w\<lparr>subtopics := (subtopics w)((topic_id, subtopic_name) \<mapsto> next_subtopic_id w),
             next_subtopic_id := Suc (next_subtopic_id w)\<rparr>))"

section \<open>\<open>content_ingestion.py\<close>\<close>

definition CONTENT_DIFFICULTY_MAP :: "(string \<times> string) list" where
  "CONTENT_DIFFICULTY_MAP =
     [(''beginner'', ''basic''), (''intermediate'', ''core''), (''advanced'', ''advanced'')]"

text \<open>An upsert with \<open>on_conflict="subtopic_id,difficulty"\<close>: each row of the batch
  replaces the row stored under its key, or is inserted.\<close>

definition content_key :: "content_row \<Rightarrow> nat \<times> string" where
  "content_key r = (subtopic_id r, difficulty r)"

definition upsert_content :: "content_row list \<Rightarrow> (nat \<times> string \<rightharpoonup> content_row) \<Rightarrow> (nat \<times> string \<rightharpoonup> content_row)" where
  "upsert_content rows tbl = fold (\<lambda>r t. t(content_key r \<mapsto> r)) rows tbl"

text \<open>The body of \<open>safe_upsert\<close>: one request; a failure is logged and raised again.\<close>

definition content_attempt :: "content_row list \<Rightarrow> world \<Rightarrow> exn option \<times> world" where
  "content_attempt rows w =
     (if attempt_fails w then
        (Some APIError,
         w\<lparr>faults := tl (faults w),
           trace := trace w @ [Content_request rows False,
                               Log ERROR (Upsert_failed ''content'')]\<rparr>)
      else
        (None,
         w\<lparr>content := upsert_content rows (content w),
           faults := tl (faults w),
           trace := trace w @ [Content_request rows True]\<rparr>))"

definition safe_upsert_content :: "content_row list \<Rightarrow> world \<Rightarrow> exn option \<times> world" where
  "safe_upsert_content rows = retry MAX_RETRIES 2 (content_attempt rows)"

text \<open>The row appended for a level block that is a mapping.\<close>

definition build_content_row :: "nat \<Rightarrow> string \<Rightarrow> (string \<times> yaml) list \<Rightarrow> content_row" where
  "build_content_row sid db_level kvs =
     \<lparr>subtopic_id = sid, difficulty = db_level,
      title = dict_get kvs ''title'', summary = dict_get kvs ''summary'',
      content_json = YDict kvs, content_hash = hash_content (YDict kvs),
      is_published = True\<rparr>"

text \<open>
  One turn of \<open>for yaml_level, db_level in DIFFICULTY_MAP.items()\<close>. A block that is
  not a mapping has no \<open>get\<close>.
\<close>

definition content_level :: "nat \<Rightarrow> (string \<times> yaml) list \<Rightarrow> string \<times> string \<Rightarrow> content_row list \<Rightarrow> exn option \<times> content_row list" where
  "content_level sid data entry batch_rows =
     (case entry of (yaml_level, db_level) \<Rightarrow>
        (case map_of data yaml_level of
           None \<Rightarrow> (None, batch_rows)
         | Some level_block \<Rightarrow>
             (case level_block of
                YDict kvs \<Rightarrow> (None, batch_rows @ [build_content_row sid db_level kvs])
              | _ \<Rightarrow> (Some AttributeError, batch_rows))))"

text \<open>The body of the loop over a topic's subtopic folders.\<close>

definition content_subtopic :: "string \<Rightarrow> nat \<Rightarrow> subtopic_folder \<Rightarrow> world \<Rightarrow> exn option \<times> world" where
  "content_subtopic topic_name topic_id folder w =
     (case folder of (subtopic_name, yaml_file) \<Rightarrow>
      case get_or_create_subtopic topic_id subtopic_name w of (sid, w1) \<Rightarrow>
        let w2 = logging INFO (Processing_subtopic subtopic_name sid) w1 in
        (case yaml_file of
           Missing \<Rightarrow> (None, logging WARNING (No_level_file subtopic_name) w2)
         | Unparsable \<Rightarrow> (Some YAMLError, w2)
         | Parsed data \<Rightarrow>
             (case data of
                YDict kvs \<Rightarrow>
                  (case for_each (content_level sid kvs) CONTENT_DIFFICULTY_MAP [] of
                     (Some e, _) \<Rightarrow> (Some e, w2)
                   | (None, batch_rows) \<Rightarrow>
                       if batch_rows \<noteq> [] then
                         (case safe_upsert_content batch_rows w2 of
                            (Some e, w3) \<Rightarrow> (Some e, w3)
                          | (None, w3) \<Rightarrow>
                              (None, logging INFO (Inserted_final_chunks (length batch_rows)) w3))
                       else (None, w2))
              | _ \<Rightarrow> (None, logging ERROR (Invalid_YAML_structure topic_name subtopic_name) w2))))"

definition content_topic :: "topic_folder \<Rightarrow> world \<Rightarrow> exn option \<times> world" where
  "content_topic folder w =
     (case folder of (topic_name, subtopic_folders) \<Rightarrow>
      case get_or_create_topic topic_name w of (topic_id, w1) \<Rightarrow>
        for_each (content_subtopic topic_name topic_id) subtopic_folders
          (logging INFO (Processing_topic topic_name topic_id) w1))"

definition ingest_content :: "topic_folder list \<Rightarrow> world \<Rightarrow> exn option \<times> world" where
  "ingest_content corpus w =
     (case for_each content_topic corpus w of
        (Some e, w') \<Rightarrow> (Some e, w')
      | (None, w') \<Rightarrow> (None, logging INFO Ingestion_completed w'))"

section \<open>\<open>question_ingestion.py\<close>\<close>

definition QUESTION_DIFFICULTY_MAP :: "(string \<times> string) list" where
  "QUESTION_DIFFICULTY_MAP =
     [(''beginner'', ''basic''), (''intermediate'', ''core''), (''advanced'', ''mastery'')]"

text \<open>Python's \<open>k in x\<close>, \<open>x[k]\<close> and iteration for a string \<open>k\<close> and a parsed
  object \<open>x\<close>, with the exceptions they raise.\<close>

fun is_substring :: "string \<Rightarrow> string \<Rightarrow> bool" where
  "is_substring k [] = (k = [])"
| "is_substring k (c # cs) = (take (length k) (c # cs) = k \<or> is_substring k cs)"

fun py_contains :: "yaml \<Rightarrow> string \<Rightarrow> exn + bool" where
  "py_contains (YDict kvs) k = Inr (map_of kvs k \<noteq> None)"
| "py_contains (YList xs) k = Inr (YStr k \<in> set xs)"
| "py_contains (YStr s) k = Inr (is_substring k s)"
| "py_contains _ k = Inl TypeError"

fun py_getitem :: "yaml \<Rightarrow> string \<Rightarrow> exn + yaml" where
  "py_getitem (YDict kvs) k = (case map_of kvs k of None \<Rightarrow> Inl KeyError | Some v \<Rightarrow> Inr v)"
| "py_getitem _ k = Inl TypeError"

fun py_iter :: "yaml \<Rightarrow> exn + yaml list" where
  "py_iter (YList xs) = Inr xs"
| "py_iter (YDict kvs) = Inr (map (\<lambda>kv. YStr (fst kv)) kvs)"
| "py_iter (YStr s) = Inr (map (\<lambda>c. YStr [c]) s)"
| "py_iter _ = Inl TypeError"

text \<open>An upsert with \<open>on_conflict="question_hash"\<close>.\<close>

definition upsert_questions :: "question_row list \<Rightarrow> (string \<rightharpoonup> question_row) \<Rightarrow> (string \<rightharpoonup> question_row)" where
  "upsert_questions rows tbl = fold (\<lambda>r t. t(question_hash r \<mapsto> r)) rows tbl"

definition question_attempt :: "question_row list \<Rightarrow> world \<Rightarrow> exn option \<times> world" where
  "question_attempt rows w =
     (if attempt_fails w then
        (Some APIError,
         w\<lparr>faults := tl (faults w),
           trace := trace w @ [Question_request rows False,
                               Log ERROR (Upsert_failed ''questions'')]\<rparr>)
      else
        (None,
         w\<lparr>questions := upsert_questions rows (questions w),
           faults := tl (faults w),
           trace := trace w @ [Question_request rows True]\<rparr>))"

definition safe_upsert_questions :: "question_row list \<Rightarrow> world \<Rightarrow> exn option \<times> world" where
  "safe_upsert_questions rows = retry MAX_RETRIES 2 (question_attempt rows)"

text \<open>The row appended for a question item that is a mapping with a type.\<close>

definition build_question_row :: "nat \<Rightarrow> string \<Rightarrow> (string \<times> yaml) list \<Rightarrow> question_row" where
  "build_question_row sid db_level kvs =
     \<lparr>q_subtopic_id = sid, q_difficulty = db_level,
      question_type = dict_get kvs ''type'', q_content_json = YDict kvs,
      question_hash = hash_content (YDict kvs), q_is_published = True\<rparr>"

text \<open>One turn of \<open>for q in questions\<close>; the state is \<open>batch_rows\<close> and the world.\<close>

definition question_item :: "string \<Rightarrow> string \<Rightarrow> nat \<Rightarrow> string \<Rightarrow> yaml \<Rightarrow> question_row list \<times> world \<Rightarrow> exn option \<times> (question_row list \<times> world)" where
  "question_item topic_name subtopic_name sid db_level q st =
     (case st of (batch_rows, w) \<Rightarrow>
        (case q of
           YDict kvs \<Rightarrow>
             if \<not> truthy (dict_get kvs ''type'') then
               (None, (batch_rows, logging WARNING (Skipping_question topic_name subtopic_name) w))
             else
               let batch_rows' = batch_rows @ [build_question_row sid db_level kvs]
               in if length batch_rows' \<ge> BATCH_SIZE then
                    (case safe_upsert_questions batch_rows' w of
                       (Some e, w') \<Rightarrow> (Some e, (batch_rows', w'))
                     | (None, w') \<Rightarrow> (None, ([], w')))
                  else (None, (batch_rows', w))
         | _ \<Rightarrow> (Some AttributeError, st)))"

text \<open>One turn of \<open>for yaml_level, db_level in DIFFICULTY_MAP.items()\<close>.\<close>

definition question_level :: "string \<Rightarrow> string \<Rightarrow> nat \<Rightarrow> yaml \<Rightarrow> string \<times> string \<Rightarrow> question_row list \<times> world \<Rightarrow> exn option \<times> (question_row list \<times> world)" where
  "question_level topic_name subtopic_name sid levels entry st =
     (case entry of (yaml_level, db_level) \<Rightarrow>
        (case py_contains levels yaml_level of
           Inl e \<Rightarrow> (Some e, st)
         | Inr False \<Rightarrow> (None, st)
         | Inr True \<Rightarrow>
             (case py_getitem levels yaml_level of
                Inl e \<Rightarrow> (Some e, st)
              | Inr (YDict kvs) \<Rightarrow>
                  (case py_iter (case map_of kvs ''questions'' of None \<Rightarrow> YList [] | Some v \<Rightarrow> v) of
                     Inl e \<Rightarrow> (Some e, st)
                   | Inr qs \<Rightarrow> for_each (question_item topic_name subtopic_name sid db_level) qs st)
              | Inr _ \<Rightarrow> (Some AttributeError, st))))"

definition question_subtopic :: "string \<Rightarrow> nat \<Rightarrow> subtopic_folder \<Rightarrow> world \<Rightarrow> exn option \<times> world" where
  "question_subtopic topic_name topic_id folder w =
     (case folder of (subtopic_name, yaml_file) \<Rightarrow>
      case get_or_create_subtopic topic_id subtopic_name w of (sid, w1) \<Rightarrow>
        let w2 = logging INFO (Processing_subtopic subtopic_name sid) w1 in
        (case yaml_file of
           Missing \<Rightarrow> (None, logging WARNING (No_level_file subtopic_name) w2)
         | Unparsable \<Rightarrow> (None, logging ERROR (Failed_to_parse topic_name subtopic_name) w2)
         | Parsed data \<Rightarrow>
             (case data of
                YDict kvs \<Rightarrow>
                  (case map_of kvs ''by_level'' of
                     None \<Rightarrow> (None, logging ERROR (Invalid_YAML_structure topic_name subtopic_name) w2)
                   | Some levels \<Rightarrow>
                       (case for_each (question_level topic_name subtopic_name sid levels)
                               QUESTION_DIFFICULTY_MAP ([], w2) of
                          (Some e, (_, w3)) \<Rightarrow> (Some e, w3)
                        | (None, (batch_rows, w3)) \<Rightarrow>
                            if batch_rows \<noteq> [] then
                              (case safe_upsert_questions batch_rows w3 of
                                 (Some e, w4) \<Rightarrow> (Some e, w4)
                               | (None, w4) \<Rightarrow>
                                   (None, logging INFO
                                      (Inserted_final_questions (length batch_rows) subtopic_name) w4))
                            else (None, w3)))
              | _ \<Rightarrow> (None, logging ERROR (Invalid_YAML_structure topic_name subtopic_name) w2))))"

definition question_topic :: "topic_folder \<Rightarrow> world \<Rightarrow> exn option \<times> world" where
  "question_topic folder w =
     (case folder of (topic_name, subtopic_folders) \<Rightarrow>
      case get_or_create_topic topic_name w of (topic_id, w1) \<Rightarrow>
        for_each (question_subtopic topic_name topic_id) subtopic_folders
          (logging INFO (Processing_topic topic_name topic_id) w1))"

definition ingest_questions :: "topic_folder list \<Rightarrow> world \<Rightarrow> exn option \<times> world" where
  "ingest_questions corpus w =
     (case for_each question_topic corpus w of
        (Some e, w') \<Rightarrow> (Some e, w')
      | (None, w') \<Rightarrow> (None, logging INFO Ingestion_completed w'))"

text \<open>A store with nothing in it, no fault ahead and an empty trace.\<close>

definition empty_world :: world where
  "empty_world =
     \<lparr>topics = Map.empty, subtopics = Map.empty, content = Map.empty, questions = Map.empty,
      next_topic_id = 1, next_subtopic_id = 1, faults = [], trace = []\<rparr>"

section \<open>Reading a trace\<close>

text \<open>The rows a request wrote (none when the store refused it), and the batch it carried.\<close>

definition written_content :: "event \<Rightarrow> content_row list" where
  "written_content e = (case e of Content_request rows True \<Rightarrow> rows | _ \<Rightarrow> [])"

definition written_questions :: "event \<Rightarrow> question_row list" where
  "written_questions e = (case e of Question_request rows True \<Rightarrow> rows | _ \<Rightarrow> [])"

definition content_rows_of :: "event list \<Rightarrow> content_row list" where
  "content_rows_of evs = concat (map written_content evs)"

definition question_rows_of :: "event list \<Rightarrow> question_row list" where
  "question_rows_of evs = concat (map written_questions evs)"

definition content_batches :: "event list \<Rightarrow> content_row list list" where
  "content_batches evs = concat (map (\<lambda>e. case e of Content_request rows ok \<Rightarrow> [rows] | _ \<Rightarrow> []) evs)"

definition question_batches :: "event list \<Rightarrow> question_row list list" where
  "question_batches evs = concat (map (\<lambda>e. case e of Question_request rows ok \<Rightarrow> [rows] | _ \<Rightarrow> []) evs)"

text \<open>The events a run added to the trace it started from.\<close>

definition new_events :: "world \<Rightarrow> world \<Rightarrow> event list" where
  "new_events w w' = drop (length (trace w)) (trace w')"

text \<open>
  Every request of a trace is well formed: the batch is not empty, holds at most
  \<open>BATCH_SIZE\<close> rows, and each row is published and carries a stored difficulty of
  its flow's table.
\<close>

definition good_content_batch :: "content_row list \<Rightarrow> bool" where
  "good_content_batch rows \<longleftrightarrow>
     rows \<noteq> [] \<and> length rows \<le> BATCH_SIZE \<and>
     list_all (\<lambda>r. is_published r \<and> difficulty r \<in> snd ` set CONTENT_DIFFICULTY_MAP) rows"

definition good_question_batch :: "question_row list \<Rightarrow> bool" where
  "good_question_batch rows \<longleftrightarrow>
     rows \<noteq> [] \<and> length rows \<le> BATCH_SIZE \<and>
     list_all (\<lambda>r. q_is_published r \<and> q_difficulty r \<in> snd ` set QUESTION_DIFFICULTY_MAP) rows"

definition good_event :: "event \<Rightarrow> bool" where
  "good_event e =
     (case e of
        Content_request rows ok \<Rightarrow> good_content_batch rows
      | Question_request rows ok \<Rightarrow> good_question_batch rows
      | _ \<Rightarrow> True)"

text \<open>
  How a world can follow from another in a run: the trace grows by well-formed events,
  the two row tables are the old ones with the written rows upserted in order, the
  hierarchy tables only gain entries, and no fault appears where none was pending.
\<close>

definition follows :: "world \<Rightarrow> world \<Rightarrow> bool" where
  "follows w w' \<longleftrightarrow>
     (\<exists>evs. trace w' = trace w @ evs \<and> list_all good_event evs \<and>
        content w' = upsert_content (content_rows_of evs) (content w) \<and>
        questions w' = upsert_questions (question_rows_of evs) (questions w)) \<and>
     topics w \<subseteq>\<^sub>m topics w' \<and> subtopics w \<subseteq>\<^sub>m subtopics w' \<and>
     (faults w = [] \<longrightarrow> faults w' = [])"

text \<open>The state of the question loops between two turns: the buffer is short of a batch.\<close>

definition okq :: "question_row \<Rightarrow> bool" where
  "okq r \<longleftrightarrow> q_is_published r \<and> q_difficulty r \<in> snd ` set QUESTION_DIFFICULTY_MAP"

definition buf_inv :: "world \<Rightarrow> question_row list \<times> world \<Rightarrow> bool" where
  "buf_inv w0 st \<longleftrightarrow> length (fst st) < BATCH_SIZE \<and> list_all okq (fst st) \<and> follows w0 (snd st)"

section \<open>What a subtopic's file should produce\<close>

text \<open>
  The rows of a content file, read off the file: one row for each level of the remap
  table whose block is present and is a mapping, in the table's order.
\<close>

definition is_dict :: "yaml \<Rightarrow> bool" where
  "is_dict v = (case v of YDict kvs \<Rightarrow> True | _ \<Rightarrow> False)"

definition block_rows :: "nat \<Rightarrow> string \<Rightarrow> yaml option \<Rightarrow> content_row list" where
  "block_rows sid dl b = (case b of Some (YDict kvs) \<Rightarrow> [build_content_row sid dl kvs] | _ \<Rightarrow> [])"

definition expected_content_rows :: "(string \<times> string) list \<Rightarrow> nat \<Rightarrow> (string \<times> yaml) list \<Rightarrow> content_row list" where
  "expected_content_rows M sid data =
     concat (map (\<lambda>entry. block_rows sid (snd entry) (map_of data (fst entry))) M)"

definition blocks_are_mappings :: "(string \<times> string) list \<Rightarrow> (string \<times> yaml) list \<Rightarrow> bool" where
  "blocks_are_mappings M data =
     list_all (\<lambda>entry. case map_of data (fst entry) of None \<Rightarrow> True | Some b \<Rightarrow> is_dict b) M"

text \<open>
  The rows of a questions file whose \<open>by_level\<close> is the mapping \<open>lv\<close>: for each level
  of the remap table, in the table's order, one row for each item of its \<open>questions\<close>
  list that has a type, in the list's order.
\<close>

definition has_type :: "yaml \<Rightarrow> bool" where
  "has_type q = (case q of YDict kvs \<Rightarrow> truthy (dict_get kvs ''type'') | _ \<Rightarrow> False)"

definition item_rows :: "nat \<Rightarrow> string \<Rightarrow> yaml list \<Rightarrow> question_row list" where
  "item_rows sid dl qs =
     concat (map (\<lambda>q. case q of
                         YDict kvs \<Rightarrow> if truthy (dict_get kvs ''type'')
                                      then [build_question_row sid dl kvs] else []
                       | _ \<Rightarrow> []) qs)"

definition level_items :: "(string \<times> yaml) list \<Rightarrow> string \<Rightarrow> yaml list" where
  "level_items lv yl =
     (case map_of lv yl of
        Some (YDict kvs) \<Rightarrow> (case map_of kvs ''questions'' of Some (YList qs) \<Rightarrow> qs | _ \<Rightarrow> [])
      | _ \<Rightarrow> [])"

definition expected_question_rows :: "(string \<times> string) list \<Rightarrow> nat \<Rightarrow> (string \<times> yaml) list \<Rightarrow> question_row list" where
  "expected_question_rows M sid lv =
     concat (map (\<lambda>entry. item_rows sid (snd entry) (level_items lv (fst entry))) M)"

text \<open>
  A questions file of the documented shape: each level of the table that is present
  is a mapping whose \<open>questions\<close>, when given, is a list of mappings.
\<close>

definition wf_level :: "yaml \<Rightarrow> bool" where
  "wf_level b =
     (case b of
        YDict kvs \<Rightarrow> (case map_of kvs ''questions'' of
                        None \<Rightarrow> True
                      | Some (YList qs) \<Rightarrow> list_all is_dict qs
                      | Some _ \<Rightarrow> False)
      | _ \<Rightarrow> False)"

definition wf_levels :: "(string \<times> string) list \<Rightarrow> (string \<times> yaml) list \<Rightarrow> bool" where
  "wf_levels M lv =
     list_all (\<lambda>entry. case map_of lv (fst entry) of None \<Rightarrow> True | Some b \<Rightarrow> wf_level b) M"

text \<open>
  A writer with a buffer of \<open>n\<close> rows: it sends a full batch whenever \<open>n\<close> rows are
  buffered, and what is left at the end, if anything, as a last batch.
\<close>

function full_batches :: "nat \<Rightarrow> 'a list \<Rightarrow> 'a list list" where
  "full_batches n xs =
     (if 0 < n \<and> n \<le> length xs then take n xs # full_batches n (drop n xs) else [])"
  by pat_completeness auto
termination
  by (relation "measure (\<lambda>(n, xs). length xs)") auto

function leftover :: "nat \<Rightarrow> 'a list \<Rightarrow> 'a list" where
  "leftover n xs = (if 0 < n \<and> n \<le> length xs then leftover n (drop n xs) else xs)"
  by pat_completeness auto
termination
  by (relation "measure (\<lambda>(n, xs). length xs)") auto

declare full_batches.simps [simp del] leftover.simps [simp del]

definition batches_of :: "nat \<Rightarrow> 'a list \<Rightarrow> 'a list list" where
  "batches_of n xs = full_batches n xs @ (if leftover n xs = [] then [] else [leftover n xs])"

text \<open>The log lines of a trace at warning or error level.\<close>

definition is_alarm :: "event \<Rightarrow> bool" where
  "is_alarm e = (case e of Log WARNING m \<Rightarrow> True | Log ERROR m \<Rightarrow> True | _ \<Rightarrow> False)"

text \<open>
  A stretch of the question flow between two worlds in which no write failed: the
  batches sent, all of them accepted, and the number of items skipped for want of a
  type; nothing else was logged at warning or error level.
\<close>

definition question_run :: "string \<Rightarrow> string \<Rightarrow> world \<Rightarrow> world \<Rightarrow> question_row list list \<Rightarrow> nat \<Rightarrow> bool" where
  "question_run tn sn w w' bs k \<longleftrightarrow>
     faults w' = [] \<and>
     (\<exists>evs. trace w' = trace w @ evs \<and> question_batches evs = bs \<and>
        question_rows_of evs = concat bs \<and>
        filter is_alarm evs = replicate k (Log WARNING (Skipping_question tn sn)))"

definition untyped_items :: "(string \<times> string) list \<Rightarrow> (string \<times> yaml) list \<Rightarrow> nat" where
  "untyped_items M lv =
     length (filter (\<lambda>q. \<not> has_type q) (concat (map (\<lambda>entry. level_items lv (fst entry)) M)))"

text \<open>Requests whose rows are all published, and requests of at most \<open>BATCH_SIZE\<close> rows.\<close>

definition all_published :: "event \<Rightarrow> bool" where
  "all_published e =
     (case e of
        Content_request rows ok \<Rightarrow> list_all is_published rows
      | Question_request rows ok \<Rightarrow> list_all q_is_published rows
      | _ \<Rightarrow> True)"

definition batch_bounded :: "event \<Rightarrow> bool" where
  "batch_bounded e =
     (case e of
        Content_request rows ok \<Rightarrow> rows \<noteq> [] \<and> length rows \<le> BATCH_SIZE
      | Question_request rows ok \<Rightarrow> rows \<noteq> [] \<and> length rows \<le> BATCH_SIZE
      | _ \<Rightarrow> True)"

text \<open>The pauses of a trace.\<close>

definition is_sleep :: "event \<Rightarrow> bool" where
  "is_sleep e = (case e of Sleep n \<Rightarrow> True | _ \<Rightarrow> False)"

section \<open>Running a flow again\<close>

text \<open>
  Replaying the writes of a trace on a table: every written row is already stored as
  written when its request arrives, so that no request changes the table.
\<close>

fun content_writes_noop :: "event list \<Rightarrow> (nat \<times> string \<rightharpoonup> content_row) \<Rightarrow> bool" where
  "content_writes_noop [] tbl = True"
| "content_writes_noop (e # evs) tbl =
     (list_all (\<lambda>r. tbl (content_key r) = Some r) (written_content e) \<and>
      content_writes_noop evs (upsert_content (written_content e) tbl))"

fun question_writes_noop :: "event list \<Rightarrow> (string \<rightharpoonup> question_row) \<Rightarrow> bool" where
  "question_writes_noop [] tbl = True"
| "question_writes_noop (e # evs) tbl =
     (list_all (\<lambda>r. tbl (question_hash r) = Some r) (written_questions e) \<and>
      question_writes_noop evs (upsert_questions (written_questions e) tbl))"

text \<open>No two different rows of the list share a conflict key.\<close>

definition consistent_on :: "('r \<Rightarrow> 'k) \<Rightarrow> 'r list \<Rightarrow> bool" where
  "consistent_on key rows = list_all (\<lambda>r. list_all (\<lambda>r'. key r = key r' \<longrightarrow> r = r') rows) rows"

text \<open>
  Two runs side by side, one from \<open>w0\<close> and one from \<open>v0\<close>, have reached \<open>w\<close> and
  \<open>v\<close>: no fault is pending, the second run has left its hierarchy tables as they
  were, and both have added the same events.
\<close>

definition hier_le :: "world \<Rightarrow> world \<Rightarrow> bool" where
  "hier_le w v \<longleftrightarrow> topics w \<subseteq>\<^sub>m topics v \<and> subtopics w \<subseteq>\<^sub>m subtopics v"

definition mirrors :: "world \<Rightarrow> world \<Rightarrow> world \<Rightarrow> world \<Rightarrow> bool" where
  "mirrors w0 v0 w v \<longleftrightarrow>
     faults w = [] \<and> faults v = [] \<and> topics v = topics v0 \<and> subtopics v = subtopics v0 \<and>
     (\<exists>evs. trace w = trace w0 @ evs \<and> trace v = trace v0 @ evs)"

text \<open>What \<open>content_subtopic\<close> and \<open>question_subtopic\<close> do once the subtopic's id is known.\<close>

definition content_after :: "string \<Rightarrow> string \<Rightarrow> nat \<Rightarrow> level_file \<Rightarrow> world \<Rightarrow> exn option \<times> world" where
  "content_after topic_name subtopic_name sid yaml_file w1 =
     (let w2 = logging INFO (Processing_subtopic subtopic_name sid) w1 in
        (case yaml_file of
           Missing \<Rightarrow> (None, logging WARNING (No_level_file subtopic_name) w2)
         | Unparsable \<Rightarrow> (Some YAMLError, w2)
         | Parsed data \<Rightarrow>
             (case data of
                YDict kvs \<Rightarrow>
                  (case for_each (content_level sid kvs) CONTENT_DIFFICULTY_MAP [] of
                     (Some e, _) \<Rightarrow> (Some e, w2)
                   | (None, batch_rows) \<Rightarrow>
                       if batch_rows \<noteq> [] then
                         (case safe_upsert_content batch_rows w2 of
                            (Some e, w3) \<Rightarrow> (Some e, w3)
                          | (None, w3) \<Rightarrow>
                              (None, logging INFO (Inserted_final_chunks (length batch_rows)) w3))
                       else (None, w2))
              | _ \<Rightarrow> (None, logging ERROR (Invalid_YAML_structure topic_name subtopic_name) w2))))"

definition question_after :: "string \<Rightarrow> string \<Rightarrow> nat \<Rightarrow> level_file \<Rightarrow> world \<Rightarrow> exn option \<times> world" where
  "question_after topic_name subtopic_name sid yaml_file w1 =
     (let w2 = logging INFO (Processing_subtopic subtopic_name sid) w1 in
        (case yaml_file of
           Missing \<Rightarrow> (None, logging WARNING (No_level_file subtopic_name) w2)
         | Unparsable \<Rightarrow> (None, logging ERROR (Failed_to_parse topic_name subtopic_name) w2)
         | Parsed data \<Rightarrow>
             (case data of
                YDict kvs \<Rightarrow>
                  (case map_of kvs ''by_level'' of
                     None \<Rightarrow> (None, logging ERROR (Invalid_YAML_structure topic_name subtopic_name) w2)
                   | Some levels \<Rightarrow>
                       (case for_each (question_level topic_name subtopic_name sid levels)
                               QUESTION_DIFFICULTY_MAP ([], w2) of
                          (Some e, (_, w3)) \<Rightarrow> (Some e, w3)
                        | (None, (batch_rows, w3)) \<Rightarrow>
                            if batch_rows \<noteq> [] then
                              (case safe_upsert_questions batch_rows w3 of
                                 (Some e, w4) \<Rightarrow> (Some e, w4)
                               | (None, w4) \<Rightarrow>
                                   (None, logging INFO
                                      (Inserted_final_questions (length batch_rows) subtopic_name) w4))
                            else (None, w3)))
              | _ \<Rightarrow> (None, logging ERROR (Invalid_YAML_structure topic_name subtopic_name) w2))))"

text \<open>The same, with the buffer of the question loops, which must agree.\<close>

definition pair_mirrors :: "world \<Rightarrow> world \<Rightarrow> question_row list \<times> world \<Rightarrow> question_row list \<times> world \<Rightarrow> bool" where
  "pair_mirrors w0 v0 s t \<longleftrightarrow> fst s = fst t \<and> mirrors w0 v0 (snd s) (snd t)"

text \<open>
  Running a flow twice: the second run ends as the first did, adds the same events to
  the trace as the first added, and leaves the four tables as the first run left them.
\<close>

definition same_store :: "world \<Rightarrow> world \<Rightarrow> bool" where
  "same_store w w' \<longleftrightarrow>
     topics w' = topics w \<and> subtopics w' = subtopics w \<and>
     content w' = content w \<and> questions w' = questions w"

definition replays :: "(world \<Rightarrow> exn option \<times> world) \<Rightarrow> world \<Rightarrow> bool" where
  "replays run w \<longleftrightarrow>
     (let w1 = snd (run w); w2 = snd (run w1) in
        fst (run w1) = fst (run w) \<and> new_events w1 w2 = new_events w w1 \<and> same_store w1 w2)"

section \<open>Equal structures and the shape of a serialisation\<close>








section \<open>How a run changes the world\<close>


lemma content_rows_of_append [simp]: "content_rows_of (a @ b) = content_rows_of a @ content_rows_of b"
  by (simp add: content_rows_of_def)

lemma question_rows_of_append [simp]: "question_rows_of (a @ b) = question_rows_of a @ question_rows_of b"
  by (simp add: question_rows_of_def)

lemma content_rows_of_Nil [simp]: "content_rows_of [] = []"
  by (simp add: content_rows_of_def)

lemma question_rows_of_Nil [simp]: "question_rows_of [] = []"
  by (simp add: question_rows_of_def)

lemma upsert_content_append [simp]: "upsert_content (a @ b) t = upsert_content b (upsert_content a t)"
  by (simp add: upsert_content_def)

lemma upsert_questions_append [simp]: "upsert_questions (a @ b) t = upsert_questions b (upsert_questions a t)"
  by (simp add: upsert_questions_def)

lemma upsert_content_Nil [simp]: "upsert_content [] t = t"
  by (simp add: upsert_content_def)

lemma upsert_questions_Nil [simp]: "upsert_questions [] t = t"
  by (simp add: upsert_questions_def)

lemma follows_refl [simp]: "follows w w"
  by (simp add: follows_def)

lemma follows_trans: "follows a b \<Longrightarrow> follows b c \<Longrightarrow> follows a c"
  unfolding follows_def
  apply (elim conjE exE)
  apply (intro conjI)
     apply (rule_tac x="evs @ evsa" in exI)
     apply simp
    apply (erule (1) map_le_trans)
   apply (erule (1) map_le_trans)
  apply simp
  done

lemma follows_logging [simp]: "follows w (logging l m w)"
  by (simp add: follows_def logging_def good_event_def content_rows_of_def question_rows_of_def written_content_def written_questions_def)

lemma follows_logging': "follows w w' \<Longrightarrow> follows w (logging l m w')"
  by (erule follows_trans) simp


lemma for_each_rule:
  assumes "I s"
    and "\<And>x s s'. x \<in> set xs \<Longrightarrow> I s \<Longrightarrow> body x s = (None, s') \<Longrightarrow> I s'"
    and "\<And>x s e s'. x \<in> set xs \<Longrightarrow> I s \<Longrightarrow> body x s = (Some e, s') \<Longrightarrow> Q s'"
  shows "case for_each body xs s of (None, s') \<Rightarrow> I s' | (Some e, s') \<Rightarrow> Q s'"
  using assms
proof (induction xs arbitrary: s)
  case Nil
  then show ?case by simp
next
  case (Cons x xs)
  obtain r s1 where b: "body x s = (r, s1)" by (cases "body x s")
  show ?case
  proof (cases r)
    case None
    with b have "I s1" using Cons.prems(2) [of x s s1] Cons.prems(1) by simp
    then have "case for_each body xs s1 of (None, s') \<Rightarrow> I s' | (Some e, s') \<Rightarrow> Q s'"
    proof (rule Cons.IH)
      fix y t t' assume "y \<in> set xs" "I t" "body y t = (None, t')"
      then show "I t'" using Cons.prems(2) [of y t t'] by simp
    next
      fix y t e t' assume "y \<in> set xs" "I t" "body y t = (Some e, t')"
      then show "Q t'" using Cons.prems(3) [of y t e t'] by simp
    qed
    with b None show ?thesis by simp
  next
    case (Some e)
    with b have "Q s1" using Cons.prems(3) [of x s e s1] Cons.prems(1) by simp
    with b Some show ?thesis by simp
  qed
qed

lemma for_each_follows:
  assumes "\<And>x w. x \<in> set xs \<Longrightarrow> follows w (snd (body x w))"
  shows "follows w (snd (for_each body xs w))"
proof -
  have "case for_each body xs w of (None, s') \<Rightarrow> follows w s' | (Some e, s') \<Rightarrow> follows w s'"
  proof (rule for_each_rule)
    show "follows w w" by simp
  next
    fix x s s' assume "x \<in> set xs" "follows w s" "body x s = (None, s')"
    with assms [of x s] show "follows w s'" by (auto intro: follows_trans)
  next
    fix x s e s' assume "x \<in> set xs" "follows w s" "body x s = (Some e, s')"
    with assms [of x s] show "follows w s'" by (auto intro: follows_trans)
  qed
  then show ?thesis by (auto split: prod.splits option.splits)
qed

lemma retry_follows:
  assumes "\<And>w. follows w (snd (f w))"
  shows "follows w (snd (retry n d f w))"
proof (induction n arbitrary: w)
  case 0
  then show ?case by simp
next
  case (Suc n)
  obtain r w1 where f: "f w = (r, w1)" by (cases "f w")
  have fw: "follows w w1" using assms [of w] f by simp
  show ?case
  proof (cases r)
    case None
    with f fw show ?thesis by simp
  next
    case (Some e)
    let ?w2 = "w1\<lparr>trace := trace w1 @ [Log WARNING (Retrying_in d), Sleep d]\<rparr>"
    have "follows w1 ?w2"
      by (simp add: follows_def good_event_def content_rows_of_def question_rows_of_def
          written_content_def written_questions_def)
    with fw have "follows w ?w2" by (rule follows_trans)
    then have "follows w (snd (retry n d f ?w2))"
      using Suc.IH [of ?w2] by (rule follows_trans)
    with f Some fw show ?thesis by simp
  qed
qed

lemma content_attempt_follows:
  "good_content_batch rows \<Longrightarrow> follows w (snd (content_attempt rows w))"
  by (simp add: content_attempt_def follows_def good_event_def content_rows_of_def
      question_rows_of_def written_content_def written_questions_def)

lemma question_attempt_follows:
  "good_question_batch rows \<Longrightarrow> follows w (snd (question_attempt rows w))"
  by (simp add: question_attempt_def follows_def good_event_def content_rows_of_def
      question_rows_of_def written_content_def written_questions_def)

lemma safe_upsert_content_follows:
  "good_content_batch rows \<Longrightarrow> follows w (snd (safe_upsert_content rows w))"
  unfolding safe_upsert_content_def by (rule retry_follows) (rule content_attempt_follows)

lemma safe_upsert_questions_follows:
  "good_question_batch rows \<Longrightarrow> follows w (snd (safe_upsert_questions rows w))"
  unfolding safe_upsert_questions_def by (rule retry_follows) (rule question_attempt_follows)

lemma get_or_create_topic_follows: "follows w (snd (get_or_create_topic n w))"
  by (auto simp: get_or_create_topic_def follows_def map_le_def split: option.splits)

lemma get_or_create_subtopic_follows: "follows w (snd (get_or_create_subtopic t n w))"
  by (auto simp: get_or_create_subtopic_def follows_def map_le_def split: option.splits)


lemma content_levels_shape:
  "\<exists>new. snd (for_each (content_level sid data) M rows) = rows @ new \<and> length new \<le> length M \<and>
     list_all (\<lambda>r. is_published r \<and> difficulty r \<in> snd ` set M) new"
proof (induction M arbitrary: rows)
  case Nil
  then show ?case by simp
next
  case (Cons entry M)
  obtain yl dl where entry: "entry = (yl, dl)" by (cases entry)
  obtain r rows1 where cl: "content_level sid data entry rows = (r, rows1)"
    by (cases "content_level sid data entry rows")
  have shape: "rows1 = rows \<or> (r = None \<and> (\<exists>kvs. rows1 = rows @ [build_content_row sid dl kvs]))"
    using cl entry by (auto simp: content_level_def split: option.splits yaml.splits)
  show ?case
  proof (cases r)
    case (Some e)
    with cl shape show ?thesis by auto
  next
    case None
    from Cons.IH [of rows1] obtain new where new:
      "snd (for_each (content_level sid data) M rows1) = rows1 @ new" "length new \<le> length M"
      "list_all (\<lambda>r. is_published r \<and> difficulty r \<in> snd ` set M) new" by blast
    from new(3) have new': "list_all (\<lambda>r. is_published r \<and> difficulty r \<in> snd ` set (entry # M)) new"
      by (auto simp: list_all_iff)
    from shape show ?thesis
    proof
      assume "rows1 = rows"
      with cl None new new' show ?thesis by (intro exI [of _ new]) simp
    next
      assume "r = None \<and> (\<exists>kvs. rows1 = rows @ [build_content_row sid dl kvs])"
      then obtain kvs where "rows1 = rows @ [build_content_row sid dl kvs]" by blast
      with cl None new new' entry show ?thesis
        by (intro exI [of _ "build_content_row sid dl kvs # new"])
           (simp add: build_content_row_def)
    qed
  qed
qed

lemma content_batch_good:
  assumes "for_each (content_level sid data) CONTENT_DIFFICULTY_MAP [] = (r, rows)" "rows \<noteq> []"
  shows "good_content_batch rows"
proof -
  from content_levels_shape [of sid data CONTENT_DIFFICULTY_MAP "[]"] assms(1)
  have "length rows \<le> length CONTENT_DIFFICULTY_MAP"
    "list_all (\<lambda>r. is_published r \<and> difficulty r \<in> snd ` set CONTENT_DIFFICULTY_MAP) rows"
    by auto
  moreover have "length CONTENT_DIFFICULTY_MAP \<le> BATCH_SIZE"
    by (simp add: CONTENT_DIFFICULTY_MAP_def BATCH_SIZE_def)
  ultimately show ?thesis using assms(2) by (simp add: good_content_batch_def)
qed

lemma content_subtopic_follows: "follows w (snd (content_subtopic tn tid folder w))"
proof -
  obtain sn f where folder: "folder = (sn, f)" by (cases folder)
  obtain sid w1 where g: "get_or_create_subtopic tid sn w = (sid, w1)"
    by (cases "get_or_create_subtopic tid sn w")
  have w1: "follows w w1" using get_or_create_subtopic_follows [of w tid sn] g by simp
  define w2 where "w2 = logging INFO (Processing_subtopic sn sid) w1"
  have w2: "follows w w2" unfolding w2_def using w1 by (rule follows_logging')
  have *: "follows w2 w3"
    if "for_each (content_level sid data) CONTENT_DIFFICULTY_MAP [] = (r, rows)" "rows \<noteq> []"
      "safe_upsert_content rows w2 = (r', w3)" for data r rows r' w3
    using safe_upsert_content_follows [OF content_batch_good [OF that(1,2)], of w2] that(3) by simp
  have "follows w2 (snd (content_subtopic tn tid folder w))"
    by (auto simp: content_subtopic_def folder g w2_def [symmetric] Let_def
        split: level_file.splits yaml.splits prod.splits option.splits
        intro: follows_logging' *)
  with w2 show ?thesis by (rule follows_trans)
qed

lemma content_topic_follows: "follows w (snd (content_topic folder w))"
proof -
  obtain tn subs where folder: "folder = (tn, subs)" by (cases folder)
  obtain tid w1 where g: "get_or_create_topic tn w = (tid, w1)"
    by (cases "get_or_create_topic tn w")
  have w1: "follows w w1" using get_or_create_topic_follows [of w tn] g by simp
  then have "follows w (logging INFO (Processing_topic tn tid) w1)" by (rule follows_logging')
  moreover have "follows (logging INFO (Processing_topic tn tid) w1)
     (snd (for_each (content_subtopic tn tid) subs (logging INFO (Processing_topic tn tid) w1)))"
    by (rule for_each_follows) (rule content_subtopic_follows)
  ultimately show ?thesis by (simp add: content_topic_def folder g) (erule (1) follows_trans)
qed

lemma ingest_content_follows: "follows w (snd (ingest_content corpus w))"
proof -
  have "follows w (snd (for_each content_topic corpus w))"
    by (rule for_each_follows) (rule content_topic_follows)
  then show ?thesis
    by (auto simp: ingest_content_def split: prod.splits option.splits intro: follows_logging')
qed


lemma question_item_inv:
  assumes "buf_inv w0 st" "dl \<in> snd ` set QUESTION_DIFFICULTY_MAP"
  shows "case question_item tn sn sid dl q st of
           (None, st') \<Rightarrow> buf_inv w0 st'
         | (Some e, st') \<Rightarrow> follows w0 (snd st')"
proof -
  obtain batch w where st: "st = (batch, w)" by (cases st)
  from assms st have b: "length batch < BATCH_SIZE" "list_all okq batch" "follows w0 w"
    by (simp_all add: buf_inv_def)
  show ?thesis
  proof (cases q)
    case (YDict kvs)
    let ?b = "batch @ [build_question_row sid dl kvs]"
    have good: "good_question_batch ?b"
      using b assms(2) by (simp add: good_question_batch_def okq_def build_question_row_def list_all_iff)
    have up: "follows w0 (snd (safe_upsert_questions ?b w))"
      using b(3) safe_upsert_questions_follows [OF good] by (rule follows_trans)
    have okb: "list_all okq ?b" using b(2) assms(2) by (simp add: okq_def build_question_row_def)
    show ?thesis
      using b up okb
      by (auto simp: question_item_def st YDict buf_inv_def Let_def BATCH_SIZE_def
          split: prod.splits option.splits intro: follows_logging')
  qed (use b in \<open>simp_all add: question_item_def st\<close>)
qed

lemma question_level_inv:
  assumes "buf_inv w0 st" "entry \<in> set QUESTION_DIFFICULTY_MAP"
  shows "case question_level tn sn sid levels entry st of
           (None, st') \<Rightarrow> buf_inv w0 st'
         | (Some e, st') \<Rightarrow> follows w0 (snd st')"
proof -
  obtain yl dl where entry: "entry = (yl, dl)" by (cases entry)
  with assms(2) have dl: "dl \<in> snd ` set QUESTION_DIFFICULTY_MAP" by force
  have fw: "follows w0 (snd st)" using assms(1) by (simp add: buf_inv_def)
  have loop: "case for_each (question_item tn sn sid dl) qs st of
           (None, st') \<Rightarrow> buf_inv w0 st'
         | (Some e, st') \<Rightarrow> follows w0 (snd st')" for qs
  proof (rule for_each_rule [where I = "buf_inv w0"])
    show "buf_inv w0 st" by (rule assms(1))
  next
    fix x s s' assume "buf_inv w0 s" "question_item tn sn sid dl x s = (None, s')"
    then show "buf_inv w0 s'" using question_item_inv [OF _ dl, of w0 s tn sn sid x] by simp
  next
    fix x s e s' assume "buf_inv w0 s" "question_item tn sn sid dl x s = (Some e, s')"
    then show "follows w0 (snd s')" using question_item_inv [OF _ dl, of w0 s tn sn sid x] by simp
  qed
  show ?thesis
    unfolding question_level_def entry
    using assms(1) fw loop
    by (auto split: sum.splits bool.splits yaml.splits option.splits)
qed

lemma question_levels_inv:
  assumes "buf_inv w0 st"
  shows "case for_each (question_level tn sn sid levels) QUESTION_DIFFICULTY_MAP st of
           (None, st') \<Rightarrow> buf_inv w0 st'
         | (Some e, st') \<Rightarrow> follows w0 (snd st')"
proof (rule for_each_rule [where I = "buf_inv w0"])
  show "buf_inv w0 st" by (rule assms)
next
  fix x s s' assume "x \<in> set QUESTION_DIFFICULTY_MAP" "buf_inv w0 s"
    "question_level tn sn sid levels x s = (None, s')"
  then show "buf_inv w0 s'" using question_level_inv [of w0 s x tn sn sid levels] by simp
next
  fix x s e s' assume "x \<in> set QUESTION_DIFFICULTY_MAP" "buf_inv w0 s"
    "question_level tn sn sid levels x s = (Some e, s')"
  then show "follows w0 (snd s')" using question_level_inv [of w0 s x tn sn sid levels] by simp
qed

lemma question_subtopic_follows: "follows w (snd (question_subtopic tn tid folder w))"
proof -
  obtain sn f where folder: "folder = (sn, f)" by (cases folder)
  obtain sid w1 where g: "get_or_create_subtopic tid sn w = (sid, w1)"
    by (cases "get_or_create_subtopic tid sn w")
  have w1: "follows w w1" using get_or_create_subtopic_follows [of w tid sn] g by simp
  define w2 where "w2 = logging INFO (Processing_subtopic sn sid) w1"
  have w2: "follows w w2" unfolding w2_def using w1 by (rule follows_logging')
  have inv0: "buf_inv w2 ([], w2)" by (simp add: buf_inv_def BATCH_SIZE_def)
  have *: "follows w2 w4"
    if "for_each (question_level tn sn sid levels) QUESTION_DIFFICULTY_MAP ([], w2) = (None, (rows, w3))"
      "rows \<noteq> []" "safe_upsert_questions rows w3 = (r', w4)" for levels rows w3 r' w4
  proof -
    from question_levels_inv [OF inv0, of tn sn sid levels] that(1)
    have b: "buf_inv w2 (rows, w3)" by simp
    then have "good_question_batch rows"
      using that(2) by (simp add: buf_inv_def good_question_batch_def okq_def list_all_iff)
    from safe_upsert_questions_follows [OF this, of w3] that(3) have "follows w3 w4" by simp
    with b show ?thesis by (auto simp: buf_inv_def intro: follows_trans)
  qed
  have **: "follows w2 w3"
    if "for_each (question_level tn sn sid levels) QUESTION_DIFFICULTY_MAP ([], w2) = (r, (rows, w3))"
    for levels r rows w3
    using question_levels_inv [OF inv0, of tn sn sid levels] that
    by (cases r) (simp_all add: buf_inv_def)
  have "follows w2 (snd (question_subtopic tn tid folder w))"
    by (auto simp: question_subtopic_def folder g w2_def [symmetric] Let_def
        split: level_file.splits yaml.splits prod.splits option.splits
        intro: follows_logging' * **)
  with w2 show ?thesis by (rule follows_trans)
qed

lemma question_topic_follows: "follows w (snd (question_topic folder w))"
proof -
  obtain tn subs where folder: "folder = (tn, subs)" by (cases folder)
  obtain tid w1 where g: "get_or_create_topic tn w = (tid, w1)"
    by (cases "get_or_create_topic tn w")
  have w1: "follows w w1" using get_or_create_topic_follows [of w tn] g by simp
  then have "follows w (logging INFO (Processing_topic tn tid) w1)" by (rule follows_logging')
  moreover have "follows (logging INFO (Processing_topic tn tid) w1)
     (snd (for_each (question_subtopic tn tid) subs (logging INFO (Processing_topic tn tid) w1)))"
    by (rule for_each_follows) (rule question_subtopic_follows)
  ultimately show ?thesis by (simp add: question_topic_def folder g) (erule (1) follows_trans)
qed

lemma ingest_questions_follows: "follows w (snd (ingest_questions corpus w))"
proof -
  have "follows w (snd (for_each question_topic corpus w))"
    by (rule for_each_follows) (rule question_topic_follows)
  then show ?thesis
    by (auto simp: ingest_questions_def split: prod.splits option.splits intro: follows_logging')
qed

section \<open>What a well-formed subtopic produces when no write fails\<close>


lemma content_levels_run:
  "blocks_are_mappings M data \<Longrightarrow>
   for_each (content_level sid data) M rows = (None, rows @ expected_content_rows M sid data)"
proof (induction M arbitrary: rows)
  case Nil
  then show ?case by (simp add: expected_content_rows_def)
next
  case (Cons entry M)
  obtain yl dl where entry: "entry = (yl, dl)" by (cases entry)
  from Cons.prems have rest: "blocks_are_mappings M data"
    and here: "case map_of data yl of None \<Rightarrow> True | Some b \<Rightarrow> is_dict b"
    by (simp_all add: blocks_are_mappings_def entry)
  show ?case
  proof (cases "map_of data yl")
    case None
    then show ?thesis
      using Cons.IH [OF rest, of rows]
      by (simp add: entry content_level_def expected_content_rows_def block_rows_def)
  next
    case (Some b)
    with here obtain kvs where b: "b = YDict kvs" by (cases b) (simp_all add: is_dict_def)
    show ?thesis
      using Cons.IH [OF rest, of "rows @ [build_content_row sid dl kvs]"] Some b
      by (simp add: entry content_level_def expected_content_rows_def block_rows_def)
  qed
qed

lemma retry_first_success:
  "f w = (None, w') \<Longrightarrow> retry (Suc n) d f w = (None, w')"
  by simp

lemma safe_upsert_content_ok:
  "faults w = [] \<Longrightarrow>
   safe_upsert_content rows w =
     (None, w\<lparr>content := upsert_content rows (content w),
              trace := trace w @ [Content_request rows True]\<rparr>)"
  by (simp add: safe_upsert_content_def MAX_RETRIES_def numeral_3_eq_3 content_attempt_def
      attempt_fails_def)

lemma safe_upsert_questions_ok:
  "faults w = [] \<Longrightarrow>
   safe_upsert_questions rows w =
     (None, w\<lparr>questions := upsert_questions rows (questions w),
              trace := trace w @ [Question_request rows True]\<rparr>)"
  by (simp add: safe_upsert_questions_def MAX_RETRIES_def numeral_3_eq_3 question_attempt_def
      attempt_fails_def)


lemma full_batches_short: "length xs < n \<Longrightarrow> full_batches n xs = []"
  by (simp add: full_batches.simps)

lemma leftover_short: "length xs < n \<Longrightarrow> leftover n xs = xs"
  by (simp add: leftover.simps)

lemma full_batches_exact:
  "0 < n \<Longrightarrow> length b = n \<Longrightarrow> full_batches n (b @ ys) = b # full_batches n ys"
  by (subst full_batches.simps) simp

lemma leftover_exact: "0 < n \<Longrightarrow> length b = n \<Longrightarrow> leftover n (b @ ys) = leftover n ys"
  by (subst leftover.simps) simp

lemma leftover_length: "0 < n \<Longrightarrow> length (leftover n xs) < n"
proof (induction n xs rule: leftover.induct)
  case (1 n xs)
  then show ?case by (subst leftover.simps) auto
qed

lemma full_batches_step:
  "0 < n \<Longrightarrow> n \<le> length xs \<Longrightarrow> full_batches n xs = take n xs # full_batches n (drop n xs)"
  by (subst full_batches.simps) simp

lemma full_batches_stop: "\<not> (0 < n \<and> n \<le> length xs) \<Longrightarrow> full_batches n xs = []"
  by (subst full_batches.simps) auto

lemma leftover_step:
  "0 < n \<Longrightarrow> n \<le> length xs \<Longrightarrow> leftover n xs = leftover n (drop n xs)"
  by (subst leftover.simps) simp

lemma leftover_stop: "\<not> (0 < n \<and> n \<le> length xs) \<Longrightarrow> leftover n xs = xs"
  by (subst leftover.simps) auto

lemma full_batches_append:
  "full_batches n (xs @ ys) = full_batches n xs @ full_batches n (leftover n xs @ ys)"
proof (induction n xs rule: full_batches.induct)
  case (1 n xs)
  show ?case
  proof (cases "0 < n \<and> n \<le> length xs")
    case True
    then have "full_batches n (xs @ ys) = take n xs # full_batches n (drop n xs @ ys)"
      by (simp add: full_batches_step [of n "xs @ ys"])
    also have "\<dots> = take n xs # (full_batches n (drop n xs) @ full_batches n (leftover n (drop n xs) @ ys))"
      using 1 True by simp
    also have "\<dots> = full_batches n xs @ full_batches n (leftover n xs @ ys)"
      using True by (simp add: full_batches_step [of n xs] leftover_step [of n xs])
    finally show ?thesis .
  next
    case False
    then show ?thesis
      by (simp add: full_batches_stop [of n xs] leftover_stop [of n xs])
  qed
qed

lemma leftover_append: "leftover n (leftover n xs @ ys) = leftover n (xs @ ys)"
proof (induction n xs rule: leftover.induct)
  case (1 n xs)
  show ?case
  proof (cases "0 < n \<and> n \<le> length xs")
    case True
    then have "leftover n (xs @ ys) = leftover n (drop n xs @ ys)"
      by (simp add: leftover_step [of n "xs @ ys"])
    also have "\<dots> = leftover n (leftover n (drop n xs) @ ys)"
      using 1 True by simp
    also have "\<dots> = leftover n (leftover n xs @ ys)"
      using True by (simp add: leftover_step [of n xs])
    finally show ?thesis by simp
  next
    case False
    then show ?thesis by (simp add: leftover_stop [of n xs])
  qed
qed

lemma question_batches_simps [simp]:
  "question_batches [] = []"
  "question_batches (a @ b) = question_batches a @ question_batches b"
  "question_batches [Question_request rows ok] = [rows]"
  "question_batches [Log l m] = []"
  by (simp_all add: question_batches_def)

lemma question_run_refl: "faults w = [] \<Longrightarrow> question_run tn sn w w [] 0"
  by (simp add: question_run_def)

lemma question_run_trans:
  "question_run tn sn a b bs k \<Longrightarrow> question_run tn sn b c bs' k' \<Longrightarrow>
   question_run tn sn a c (bs @ bs') (k + k')"
  unfolding question_run_def
  apply (elim conjE exE)
  apply (intro conjI, assumption)
  apply (rule_tac x="evs @ evsa" in exI)
  apply (simp add: replicate_add)
  done

lemma question_run_skip:
  "faults w = [] \<Longrightarrow>
   question_run tn sn w (logging WARNING (Skipping_question tn sn) w) [] (Suc 0)"
  by (simp add: question_run_def logging_def question_rows_of_def written_questions_def is_alarm_def)

lemma question_run_info:
  "faults w = [] \<Longrightarrow> question_run tn sn w (logging INFO m w) [] 0"
  by (simp add: question_run_def logging_def question_rows_of_def written_questions_def is_alarm_def)

lemma question_run_upsert:
  "faults w = [] \<Longrightarrow>
   question_run tn sn w
     (w\<lparr>questions := upsert_questions rows (questions w),
        trace := trace w @ [Question_request rows True]\<rparr>) [rows] 0"
  by (simp add: question_run_def question_rows_of_def written_questions_def is_alarm_def)

lemma question_run_faults: "question_run tn sn w w' bs k \<Longrightarrow> faults w' = []"
  by (simp add: question_run_def)

lemma question_item_skip:
  "\<not> truthy (dict_get kvs ''type'') \<Longrightarrow>
   question_item tn sn sid dl (YDict kvs) (batch, w) =
     (None, (batch, logging WARNING (Skipping_question tn sn) w))"
  by (simp add: question_item_def)

lemma question_item_keep:
  "truthy (dict_get kvs ''type'') \<Longrightarrow> Suc (length batch) < BATCH_SIZE \<Longrightarrow>
   question_item tn sn sid dl (YDict kvs) (batch, w) =
     (None, (batch @ [build_question_row sid dl kvs], w))"
  by (simp add: question_item_def)

lemma question_item_flush:
  "truthy (dict_get kvs ''type'') \<Longrightarrow> \<not> Suc (length batch) < BATCH_SIZE \<Longrightarrow>
   question_item tn sn sid dl (YDict kvs) (batch, w) =
     (case safe_upsert_questions (batch @ [build_question_row sid dl kvs]) w of
        (Some e, w') \<Rightarrow> (Some e, (batch @ [build_question_row sid dl kvs], w'))
      | (None, w') \<Rightarrow> (None, ([], w')))"
  by (simp add: question_item_def Let_def)

lemma question_items_run:
  assumes "faults w = []" "length batch < BATCH_SIZE" "list_all is_dict qs"
  shows "\<exists>w'. for_each (question_item tn sn sid dl) qs (batch, w) =
            (None, (leftover BATCH_SIZE (batch @ item_rows sid dl qs), w')) \<and>
          question_run tn sn w w' (full_batches BATCH_SIZE (batch @ item_rows sid dl qs))
            (length (filter (\<lambda>q. \<not> has_type q) qs))"
  using assms
proof (induction qs arbitrary: batch w)
  case Nil
  then show ?case
    by (simp add: item_rows_def leftover_short full_batches_short question_run_refl)
next
  case (Cons q qs)
  from Cons.prems(3) have "is_dict q" and rest: "list_all is_dict qs" by simp_all
  then obtain kvs where q: "q = YDict kvs" by (cases q) (simp_all add: is_dict_def)
  show ?case
  proof (cases "truthy (dict_get kvs ''type'')")
    case False
    let ?w1 = "logging WARNING (Skipping_question tn sn) w"
    have f1: "faults ?w1 = []" using Cons.prems(1) by (simp add: logging_def)
    from Cons.IH [OF f1 Cons.prems(2) rest] obtain w' where
      loop: "for_each (question_item tn sn sid dl) qs (batch, ?w1) =
            (None, (leftover BATCH_SIZE (batch @ item_rows sid dl qs), w'))"
      and run: "question_run tn sn ?w1 w' (full_batches BATCH_SIZE (batch @ item_rows sid dl qs))
            (length (filter (\<lambda>q. \<not> has_type q) qs))" by blast
    have rows: "item_rows sid dl (YDict kvs # qs) = item_rows sid dl qs"
      using False by (simp add: item_rows_def)
    have "question_run tn sn w w' ([] @ full_batches BATCH_SIZE (batch @ item_rows sid dl qs))
            (Suc 0 + length (filter (\<lambda>q. \<not> has_type q) qs))"
      using question_run_skip [OF Cons.prems(1)] run by (rule question_run_trans)
    then show ?thesis
      using loop False by (simp add: rows question_item_skip q has_type_def)
  next
    case True
    let ?r = "build_question_row sid dl kvs"
    have rows: "item_rows sid dl (YDict kvs # qs) = ?r # item_rows sid dl qs"
      using True by (simp add: item_rows_def)
    show ?thesis
    proof (cases "Suc (length batch) < BATCH_SIZE")
      case less: True
      from Cons.IH [OF Cons.prems(1) _ rest, of "batch @ [?r]"] less obtain w' where
        loop: "for_each (question_item tn sn sid dl) qs (batch @ [?r], w) =
            (None, (leftover BATCH_SIZE ((batch @ [?r]) @ item_rows sid dl qs), w'))"
        and run: "question_run tn sn w w'
            (full_batches BATCH_SIZE ((batch @ [?r]) @ item_rows sid dl qs))
            (length (filter (\<lambda>q. \<not> has_type q) qs))" by auto
      show ?thesis
        using loop run True less
        by (simp add: rows question_item_keep q has_type_def)
    next
      case False
      with Cons.prems(2) have len: "length (batch @ [?r]) = BATCH_SIZE" by simp
      have pos: "0 < BATCH_SIZE" by (simp add: BATCH_SIZE_def)
      let ?w1 = "w\<lparr>questions := upsert_questions (batch @ [?r]) (questions w),
                    trace := trace w @ [Question_request (batch @ [?r]) True]\<rparr>"
      have f1: "faults ?w1 = []" using Cons.prems(1) by simp
      from Cons.IH [OF f1 _ rest, of "[]"] pos obtain w' where
        loop: "for_each (question_item tn sn sid dl) qs ([], ?w1) =
            (None, (leftover BATCH_SIZE (item_rows sid dl qs), w'))"
        and run: "question_run tn sn ?w1 w' (full_batches BATCH_SIZE (item_rows sid dl qs))
            (length (filter (\<lambda>q. \<not> has_type q) qs))" by auto
      have run': "question_run tn sn w w'
            ([batch @ [?r]] @ full_batches BATCH_SIZE (item_rows sid dl qs))
            (0 + length (filter (\<lambda>q. \<not> has_type q) qs))"
        using question_run_upsert [OF Cons.prems(1)] run by (rule question_run_trans)
      have fb: "full_batches BATCH_SIZE (batch @ ?r # item_rows sid dl qs) =
            (batch @ [?r]) # full_batches BATCH_SIZE (item_rows sid dl qs)"
        using full_batches_exact [OF pos len, of "item_rows sid dl qs"] by simp
      have lo: "leftover BATCH_SIZE (batch @ ?r # item_rows sid dl qs) =
            leftover BATCH_SIZE (item_rows sid dl qs)"
        using leftover_exact [OF pos len, of "item_rows sid dl qs"] by simp
      show ?thesis
        using loop run' True False len
        by (simp add: rows question_item_flush q has_type_def fb lo
            safe_upsert_questions_ok [OF Cons.prems(1)])
    qed
  qed
qed


lemma question_level_absent:
  "map_of lv yl = None \<Longrightarrow> question_level tn sn sid (YDict lv) (yl, dl) st = (None, st)"
  by (simp add: question_level_def)

lemma question_level_present:
  "map_of lv yl = Some (YDict kvs) \<Longrightarrow>
   question_level tn sn sid (YDict lv) (yl, dl) st =
     (case py_iter (case map_of kvs ''questions'' of None \<Rightarrow> YList [] | Some v \<Rightarrow> v) of
        Inl e \<Rightarrow> (Some e, st)
      | Inr qs \<Rightarrow> for_each (question_item tn sn sid dl) qs st)"
  by (simp add: question_level_def)

lemma question_level_run:
  assumes "faults w = []" "length batch < BATCH_SIZE"
    and "case map_of lv yl of None \<Rightarrow> True | Some b \<Rightarrow> wf_level b"
  shows "\<exists>w'. question_level tn sn sid (YDict lv) (yl, dl) (batch, w) =
            (None, (leftover BATCH_SIZE (batch @ item_rows sid dl (level_items lv yl)), w')) \<and>
          question_run tn sn w w'
            (full_batches BATCH_SIZE (batch @ item_rows sid dl (level_items lv yl)))
            (length (filter (\<lambda>q. \<not> has_type q) (level_items lv yl)))"
proof (cases "map_of lv yl")
  case None
  then show ?thesis
    using assms(1,2)
    by (simp add: question_level_absent level_items_def item_rows_def leftover_short
        full_batches_short question_run_refl)
next
  case (Some b)
  with assms(3) have "wf_level b" by simp
  then obtain kvs where b: "b = YDict kvs"
    and qs: "case map_of kvs ''questions'' of None \<Rightarrow> True | Some (YList qs) \<Rightarrow> list_all is_dict qs
             | Some _ \<Rightarrow> False"
    by (cases b) (simp_all add: wf_level_def)
  show ?thesis
  proof (cases "map_of kvs ''questions''")
    case None
    then show ?thesis
      using assms(1,2) Some b
      by (simp add: question_level_present level_items_def item_rows_def leftover_short
          full_batches_short question_run_refl)
  next
    case (Some v)
    with qs obtain items where v: "v = YList items" and items: "list_all is_dict items"
      by (cases v) simp_all
    have li: "level_items lv yl = items"
      using \<open>map_of lv yl = Some b\<close> b Some v by (simp add: level_items_def)
    from question_items_run [OF assms(1,2) items, of tn sn sid dl]
    show ?thesis
      using \<open>map_of lv yl = Some b\<close> b Some v by (simp add: question_level_present li)
  qed
qed

lemma question_levels_run:
  assumes "faults w = []" "length batch < BATCH_SIZE" "wf_levels M lv"
  shows "\<exists>w'. for_each (question_level tn sn sid (YDict lv)) M (batch, w) =
            (None, (leftover BATCH_SIZE (batch @ expected_question_rows M sid lv), w')) \<and>
          question_run tn sn w w'
            (full_batches BATCH_SIZE (batch @ expected_question_rows M sid lv))
            (untyped_items M lv)"
  using assms
proof (induction M arbitrary: batch w)
  case Nil
  then show ?case
    by (simp add: expected_question_rows_def untyped_items_def leftover_short
        full_batches_short question_run_refl)
next
  case (Cons entry M)
  obtain yl dl where entry: "entry = (yl, dl)" by (cases entry)
  from Cons.prems(3) have here: "case map_of lv yl of None \<Rightarrow> True | Some b \<Rightarrow> wf_level b"
    and rest: "wf_levels M lv" by (simp_all add: wf_levels_def entry)
  let ?re = "item_rows sid dl (level_items lv yl)"
  let ?rest = "expected_question_rows M sid lv"
  from question_level_run [OF Cons.prems(1,2) here, of tn sn sid dl] obtain w1 where
    step: "question_level tn sn sid (YDict lv) (yl, dl) (batch, w) =
            (None, (leftover BATCH_SIZE (batch @ ?re), w1))"
    and run1: "question_run tn sn w w1 (full_batches BATCH_SIZE (batch @ ?re))
            (length (filter (\<lambda>q. \<not> has_type q) (level_items lv yl)))" by blast
  have f1: "faults w1 = []" using run1 by (rule question_run_faults)
  have len: "length (leftover BATCH_SIZE (batch @ ?re)) < BATCH_SIZE"
    by (rule leftover_length) (simp add: BATCH_SIZE_def)
  from Cons.IH [OF f1 len rest] obtain w' where
    loop: "for_each (question_level tn sn sid (YDict lv)) M (leftover BATCH_SIZE (batch @ ?re), w1) =
            (None, (leftover BATCH_SIZE (leftover BATCH_SIZE (batch @ ?re) @ ?rest), w'))"
    and run2: "question_run tn sn w1 w'
            (full_batches BATCH_SIZE (leftover BATCH_SIZE (batch @ ?re) @ ?rest))
            (untyped_items M lv)" by blast
  have rows: "expected_question_rows (entry # M) sid lv = ?re @ ?rest"
    by (simp add: expected_question_rows_def entry)
  have k: "untyped_items (entry # M) lv =
      length (filter (\<lambda>q. \<not> has_type q) (level_items lv yl)) + untyped_items M lv"
    by (simp add: untyped_items_def entry)
  have "question_run tn sn w w'
          (full_batches BATCH_SIZE (batch @ ?re) @
           full_batches BATCH_SIZE (leftover BATCH_SIZE (batch @ ?re) @ ?rest))
          (length (filter (\<lambda>q. \<not> has_type q) (level_items lv yl)) + untyped_items M lv)"
    using run1 run2 by (rule question_run_trans)
  then have run: "question_run tn sn w w'
          (full_batches BATCH_SIZE (batch @ expected_question_rows (entry # M) sid lv))
          (untyped_items (entry # M) lv)"
    using full_batches_append [of BATCH_SIZE "batch @ ?re" ?rest] by (simp add: rows k)
  have lo: "leftover BATCH_SIZE (leftover BATCH_SIZE (batch @ ?re) @ ?rest) =
      leftover BATCH_SIZE (batch @ expected_question_rows (entry # M) sid lv)"
    using leftover_append [of BATCH_SIZE "batch @ ?re" ?rest] by (simp add: rows)
  have "for_each (question_level tn sn sid (YDict lv)) (entry # M) (batch, w) =
      (None, (leftover BATCH_SIZE (batch @ expected_question_rows (entry # M) sid lv), w'))"
    using step loop by (simp add: entry lo)
  with run show ?case by blast
qed

lemma get_or_create_subtopic_quiet:
  "get_or_create_subtopic tid sn w = (sid, w1) \<Longrightarrow>
   trace w1 = trace w \<and> faults w1 = faults w \<and> content w1 = content w \<and>
   questions w1 = questions w \<and> topics w1 = topics w"
  by (auto simp: get_or_create_subtopic_def split: option.splits)

lemma get_or_create_topic_quiet:
  "get_or_create_topic tn w = (tid, w1) \<Longrightarrow>
   trace w1 = trace w \<and> faults w1 = faults w \<and> content w1 = content w \<and>
   questions w1 = questions w \<and> subtopics w1 = subtopics w"
  by (auto simp: get_or_create_topic_def split: option.splits)

lemma question_run_shift:
  "trace w1 = trace w \<Longrightarrow> question_run tn sn w1 w' bs k \<Longrightarrow> question_run tn sn w w' bs k"
  by (simp add: question_run_def)

lemma question_subtopic_run:
  assumes "faults w = []" "map_of kvs ''by_level'' = Some (YDict lv)"
    and "wf_levels QUESTION_DIFFICULTY_MAP lv"
    and "get_or_create_subtopic tid sn w = (sid, w1)"
  shows "\<exists>w'. question_subtopic tn tid (sn, Parsed (YDict kvs)) w = (None, w') \<and>
          question_run tn sn w w'
            (batches_of BATCH_SIZE (expected_question_rows QUESTION_DIFFICULTY_MAP sid lv))
            (untyped_items QUESTION_DIFFICULTY_MAP lv)"
proof -
  let ?rows = "expected_question_rows QUESTION_DIFFICULTY_MAP sid lv"
  let ?k = "untyped_items QUESTION_DIFFICULTY_MAP lv"
  note quiet = get_or_create_subtopic_quiet [OF assms(4)]
  define w2 where "w2 = logging INFO (Processing_subtopic sn sid) w1"
  have f1: "faults w1 = []" using quiet assms(1) by simp
  have f2: "faults w2 = []" using f1 by (simp add: w2_def logging_def)
  have run2: "question_run tn sn w w2 [] 0"
    using question_run_info [OF f1, of tn sn "Processing_subtopic sn sid"] quiet
    unfolding w2_def by (auto intro: question_run_shift)
  from question_levels_run [OF f2 _ assms(3), of "[]" tn sn sid] obtain w3 where
    loop: "for_each (question_level tn sn sid (YDict lv)) QUESTION_DIFFICULTY_MAP ([], w2) =
            (None, (leftover BATCH_SIZE ?rows, w3))"
    and run3: "question_run tn sn w2 w3 (full_batches BATCH_SIZE ?rows) ?k"
    by (auto simp: BATCH_SIZE_def)
  have f3: "faults w3 = []" using run3 by (rule question_run_faults)
  have run23: "question_run tn sn w w3 (full_batches BATCH_SIZE ?rows) ?k"
    using question_run_trans [OF run2 run3] by simp
  show ?thesis
  proof (cases "leftover BATCH_SIZE ?rows = []")
    case True
    then have "question_subtopic tn tid (sn, Parsed (YDict kvs)) w = (None, w3)"
      using loop by (simp add: question_subtopic_def assms(2,4) w2_def [symmetric])
    with run23 True show ?thesis by (simp add: batches_of_def)
  next
    case False
    let ?w4 = "w3\<lparr>questions := upsert_questions (leftover BATCH_SIZE ?rows) (questions w3),
                    trace := trace w3 @ [Question_request (leftover BATCH_SIZE ?rows) True]\<rparr>"
    let ?w5 = "logging INFO (Inserted_final_questions (length (leftover BATCH_SIZE ?rows)) sn) ?w4"
    have "question_subtopic tn tid (sn, Parsed (YDict kvs)) w = (None, ?w5)"
      using loop False
      by (simp add: question_subtopic_def assms(2,4) w2_def [symmetric]
          safe_upsert_questions_ok [OF f3])
    moreover have "question_run tn sn w ?w4 (full_batches BATCH_SIZE ?rows @ [leftover BATCH_SIZE ?rows]) (?k + 0)"
      using run23 question_run_upsert [OF f3] by (rule question_run_trans)
    then have "question_run tn sn w ?w5
        ((full_batches BATCH_SIZE ?rows @ [leftover BATCH_SIZE ?rows]) @ []) (?k + 0 + 0)"
      by (rule question_run_trans) (rule question_run_info, simp add: f3)
    ultimately show ?thesis using False by (simp add: batches_of_def)
  qed
qed


lemma content_batches_simps [simp]:
  "content_batches [] = []"
  "content_batches (a @ b) = content_batches a @ content_batches b"
  "content_batches [Content_request rows ok] = [rows]"
  "content_batches [Log l m] = []"
  by (simp_all add: content_batches_def)

lemma expected_content_rows_length: "length (expected_content_rows M sid data) \<le> length M"
proof (induction M)
  case Nil
  then show ?case by (simp add: expected_content_rows_def)
next
  case (Cons e M)
  have "expected_content_rows (e # M) sid data =
      block_rows sid (snd e) (map_of data (fst e)) @ expected_content_rows M sid data"
    by (simp add: expected_content_rows_def)
  with Cons show ?case by (auto simp: block_rows_def split: option.splits yaml.splits)
qed

lemma batches_of_short:
  "length xs < n \<Longrightarrow> batches_of n xs = (if xs = [] then [] else [xs])"
  by (simp add: batches_of_def full_batches_short leftover_short)

lemma content_subtopic_run:
  assumes "faults w = []" "blocks_are_mappings CONTENT_DIFFICULTY_MAP kvs"
    and "get_or_create_subtopic tid sn w = (sid, w1)"
  shows "\<exists>w' evs. content_subtopic tn tid (sn, Parsed (YDict kvs)) w = (None, w') \<and>
          faults w' = [] \<and> trace w' = trace w @ evs \<and>
          content_batches evs =
            batches_of BATCH_SIZE (expected_content_rows CONTENT_DIFFICULTY_MAP sid kvs) \<and>
          content_rows_of evs = expected_content_rows CONTENT_DIFFICULTY_MAP sid kvs \<and>
          filter is_alarm evs = []"
proof -
  let ?rows = "expected_content_rows CONTENT_DIFFICULTY_MAP sid kvs"
  note quiet = get_or_create_subtopic_quiet [OF assms(3)]
  define w2 where "w2 = logging INFO (Processing_subtopic sn sid) w1"
  have f2: "faults w2 = []" using quiet assms(1) by (simp add: w2_def logging_def)
  have t2: "trace w2 = trace w @ [Log INFO (Processing_subtopic sn sid)]"
    using quiet by (simp add: w2_def logging_def)
  have loop: "for_each (content_level sid kvs) CONTENT_DIFFICULTY_MAP [] = (None, ?rows)"
    using content_levels_run [OF assms(2), of sid "[]"] by simp
  have "length ?rows \<le> length CONTENT_DIFFICULTY_MAP" by (rule expected_content_rows_length)
  then have short: "length ?rows < BATCH_SIZE"
    by (simp add: CONTENT_DIFFICULTY_MAP_def BATCH_SIZE_def)
  show ?thesis
  proof (cases "?rows = []")
    case True
    then have "content_subtopic tn tid (sn, Parsed (YDict kvs)) w = (None, w2)"
      using loop by (simp add: content_subtopic_def assms(3) w2_def [symmetric])
    then show ?thesis
      using f2 t2 True short
      by (simp add: batches_of_short content_rows_of_def written_content_def is_alarm_def)
  next
    case False
    let ?w3 = "logging INFO (Inserted_final_chunks (length ?rows))
                 (w2\<lparr>content := upsert_content ?rows (content w2),
                     trace := trace w2 @ [Content_request ?rows True]\<rparr>)"
    have "content_subtopic tn tid (sn, Parsed (YDict kvs)) w = (None, ?w3)"
      using loop False
      by (simp add: content_subtopic_def assms(3) w2_def [symmetric] safe_upsert_content_ok [OF f2])
    moreover have "faults ?w3 = []" using f2 by (simp add: logging_def)
    moreover have "trace ?w3 = trace w @ [Log INFO (Processing_subtopic sn sid),
        Content_request ?rows True, Log INFO (Inserted_final_chunks (length ?rows))]"
      using t2 by (simp add: logging_def)
    ultimately show ?thesis
      using False short
      by (simp add: batches_of_short content_rows_of_def written_content_def is_alarm_def
          content_batches_def)
  qed
qed

section \<open>The claims\<close>


lemma follows_new_events: "follows w w' \<Longrightarrow> list_all good_event (new_events w w')"
  by (auto simp: follows_def new_events_def)

lemma good_event_published: "good_event e \<Longrightarrow> all_published e"
  by (auto simp: good_event_def all_published_def good_content_batch_def good_question_batch_def
      list_all_iff split: event.splits)

lemma good_event_bounded: "good_event e \<Longrightarrow> batch_bounded e"
  by (auto simp: good_event_def batch_bounded_def good_content_batch_def good_question_batch_def
      split: event.splits)

lemma question_run_new_events:
  "question_run tn sn w w' bs k \<Longrightarrow>
   question_batches (new_events w w') = bs \<and> question_rows_of (new_events w w') = concat bs \<and>
   filter is_alarm (new_events w w') = replicate k (Log WARNING (Skipping_question tn sn))"
  by (auto simp: question_run_def new_events_def)

lemma concat_full_batches: "concat (full_batches n xs) @ leftover n xs = xs"
proof (induction n xs rule: full_batches.induct)
  case (1 n xs)
  show ?case
  proof (cases "0 < n \<and> n \<le> length xs")
    case True
    with 1 show ?thesis by (simp add: full_batches_step [of n xs] leftover_step [of n xs])
  next
    case False
    then show ?thesis by (simp add: full_batches_stop [of n xs] leftover_stop [of n xs])
  qed
qed

lemma concat_batches_of: "concat (batches_of n xs) = xs"
  using concat_full_batches [of n xs] by (auto simp: batches_of_def)

text \<open>
  C10. Every content row and every question row that either flow builds and sends to
  the store has \<open>is_published\<close> set to true, whatever the corpus, the store and the
  write failures.
\<close>

theorem rows_are_published:
  "is_published (build_content_row sid dl kvs) \<and>
   q_is_published (build_question_row sid dl kvs) \<and>
   list_all all_published (new_events w (snd (ingest_content corpus w))) \<and>
   list_all all_published (new_events w (snd (ingest_questions corpus w)))"
proof -
  have "list_all all_published (new_events w (snd (ingest_content corpus w)))"
    using follows_new_events [OF ingest_content_follows [of w corpus]]
    by (auto simp: list_all_iff intro: good_event_published)
  moreover have "list_all all_published (new_events w (snd (ingest_questions corpus w)))"
    using follows_new_events [OF ingest_questions_follows [of w corpus]]
    by (auto simp: list_all_iff intro: good_event_published)
  ultimately show ?thesis by (simp add: build_content_row_def build_question_row_def)
qed


lemma for_each_cong:
  "(\<And>x s. x \<in> set xs \<Longrightarrow> f x s = g x s) \<Longrightarrow> for_each f xs s = for_each g xs s"
proof (induction xs arbitrary: s)
  case Nil
  then show ?case by simp
next
  case (Cons x xs)
  have "f x s = g x s" using Cons.prems by simp
  moreover have "for_each f xs t = for_each g xs t" for t
    by (rule Cons.IH) (simp add: Cons.prems)
  ultimately show ?case by (simp split: prod.splits option.splits)
qed

lemma full_batches_lengths: "list_all (\<lambda>b. length b = n) (full_batches n xs)"
proof (induction n xs rule: full_batches.induct)
  case (1 n xs)
  show ?case
  proof (cases "0 < n \<and> n \<le> length xs")
    case True
    with 1 show ?thesis by (simp add: full_batches_step [of n xs])
  next
    case False
    then show ?thesis by (simp add: full_batches_stop [of n xs])
  qed
qed

lemma batches_of_lengths:
  assumes "0 < n"
  shows "list_all (\<lambda>b. b \<noteq> [] \<and> length b \<le> n) (batches_of n xs)"
    and "list_all (\<lambda>b. length b = n) (butlast (batches_of n xs))"
proof -
  have full: "list_all (\<lambda>b. length b = n) (full_batches n xs)" by (rule full_batches_lengths)
  have lo: "length (leftover n xs) < n" using assms by (rule leftover_length)
  show "list_all (\<lambda>b. b \<noteq> [] \<and> length b \<le> n) (batches_of n xs)"
    using full lo assms by (auto simp: batches_of_def list_all_iff)
  show "list_all (\<lambda>b. length b = n) (butlast (batches_of n xs))"
    using full by (auto simp: batches_of_def list_all_iff butlast_append dest: in_set_butlastD)
qed

lemma content_run_new_events:
  assumes "trace w' = trace w @ evs"
  shows "new_events w w' = evs"
  using assms by (simp add: new_events_def)

text \<open>
  C4. In both flows every upsert request carries at least one and at most
  \<open>BATCH_SIZE = 10\<close> rows, whatever the corpus and the write failures. In the question
  flow, appending the row that fills the buffer calls the upsert at once on the full
  buffer and empties it. When no write fails, a well-formed subtopic's rows leave in
  the batches of a writer with a buffer of ten: full batches as they fill up, then the
  partial batch at the end of the subtopic, and no request at all for no rows.
\<close>

theorem batched_writes:
  "BATCH_SIZE = 10 \<and>
   list_all batch_bounded (new_events w (snd (ingest_content corpus w))) \<and>
   list_all batch_bounded (new_events w (snd (ingest_questions corpus w))) \<and>
   (truthy (dict_get item ''type'') \<and> Suc (length batch) = BATCH_SIZE \<longrightarrow>
      question_item tn sn sid dl (YDict item) (batch, w) =
        (case safe_upsert_questions (batch @ [build_question_row sid dl item]) w of
           (Some e, w') \<Rightarrow> (Some e, (batch @ [build_question_row sid dl item], w'))
         | (None, w') \<Rightarrow> (None, ([], w')))) \<and>
   (truthy (dict_get item ''type'') \<and> Suc (length short) < BATCH_SIZE \<longrightarrow>
      question_item tn sn sid dl (YDict item) (short, w) =
        (None, (short @ [build_question_row sid dl item], w))) \<and>
   (faults w = [] \<and> map_of kvs ''by_level'' = Some (YDict lv) \<and>
    wf_levels QUESTION_DIFFICULTY_MAP lv \<longrightarrow>
      (\<exists>w'. question_subtopic tn tid (sn, Parsed (YDict kvs)) w = (None, w') \<and>
         question_batches (new_events w w') =
           batches_of BATCH_SIZE
             (expected_question_rows QUESTION_DIFFICULTY_MAP
                (fst (get_or_create_subtopic tid sn w)) lv))) \<and>
   (faults w = [] \<and> blocks_are_mappings CONTENT_DIFFICULTY_MAP data \<longrightarrow>
      (\<exists>w'. content_subtopic tn tid (sn, Parsed (YDict data)) w = (None, w') \<and>
         content_batches (new_events w w') =
           batches_of BATCH_SIZE
             (expected_content_rows CONTENT_DIFFICULTY_MAP
                (fst (get_or_create_subtopic tid sn w)) data))) \<and>
   batches_of BATCH_SIZE ([] :: question_row list) = [] \<and>
   concat (batches_of BATCH_SIZE rows) = rows \<and>
   list_all (\<lambda>b. b \<noteq> [] \<and> length b \<le> BATCH_SIZE) (batches_of BATCH_SIZE rows) \<and>
   list_all (\<lambda>b. length b = BATCH_SIZE) (butlast (batches_of BATCH_SIZE rows))"
proof -
  have pos: "0 < BATCH_SIZE" by (simp add: BATCH_SIZE_def)
  have c1: "list_all batch_bounded (new_events w (snd (ingest_content corpus w)))"
    using follows_new_events [OF ingest_content_follows [of w corpus]]
    by (auto simp: list_all_iff intro: good_event_bounded)
  have c2: "list_all batch_bounded (new_events w (snd (ingest_questions corpus w)))"
    using follows_new_events [OF ingest_questions_follows [of w corpus]]
    by (auto simp: list_all_iff intro: good_event_bounded)
  have c3: "question_item tn sn sid dl (YDict item) (batch, w) =
        (case safe_upsert_questions (batch @ [build_question_row sid dl item]) w of
           (Some e, w') \<Rightarrow> (Some e, (batch @ [build_question_row sid dl item], w'))
         | (None, w') \<Rightarrow> (None, ([], w')))"
    if "truthy (dict_get item ''type'')" "Suc (length batch) = BATCH_SIZE"
    using that by (intro question_item_flush) simp_all
  have c4: "question_item tn sn sid dl (YDict item) (short, w) =
        (None, (short @ [build_question_row sid dl item], w))"
    if "truthy (dict_get item ''type'')" "Suc (length short) < BATCH_SIZE"
    using that by (rule question_item_keep)
  have c5: "\<exists>w'. question_subtopic tn tid (sn, Parsed (YDict kvs)) w = (None, w') \<and>
         question_batches (new_events w w') =
           batches_of BATCH_SIZE
             (expected_question_rows QUESTION_DIFFICULTY_MAP
                (fst (get_or_create_subtopic tid sn w)) lv)"
    if "faults w = []" "map_of kvs ''by_level'' = Some (YDict lv)"
      "wf_levels QUESTION_DIFFICULTY_MAP lv"
  proof -
    obtain sid' w1 where g: "get_or_create_subtopic tid sn w = (sid', w1)"
      by (cases "get_or_create_subtopic tid sn w")
    from question_subtopic_run [OF that g, of tn] obtain w' where
      "question_subtopic tn tid (sn, Parsed (YDict kvs)) w = (None, w')"
      "question_run tn sn w w'
        (batches_of BATCH_SIZE (expected_question_rows QUESTION_DIFFICULTY_MAP sid' lv))
        (untyped_items QUESTION_DIFFICULTY_MAP lv)" by blast
    then show ?thesis using question_run_new_events g by fastforce
  qed
  have c6: "\<exists>w'. content_subtopic tn tid (sn, Parsed (YDict data)) w = (None, w') \<and>
         content_batches (new_events w w') =
           batches_of BATCH_SIZE
             (expected_content_rows CONTENT_DIFFICULTY_MAP
                (fst (get_or_create_subtopic tid sn w)) data)"
    if "faults w = []" "blocks_are_mappings CONTENT_DIFFICULTY_MAP data"
  proof -
    obtain sid' w1 where g: "get_or_create_subtopic tid sn w = (sid', w1)"
      by (cases "get_or_create_subtopic tid sn w")
    from content_subtopic_run [OF that g, of tn] show ?thesis
      using g by (auto simp: new_events_def)
  qed
  have c7: "batches_of BATCH_SIZE ([] :: question_row list) = []"
    using pos by (simp add: batches_of_short)
  show ?thesis
    using c1 c2 c3 c4 c5 c6 c7 concat_batches_of [of BATCH_SIZE rows]
      batches_of_lengths [OF pos, of rows]
    by (simp add: BATCH_SIZE_def)
qed


theorem batched_writes_witness:
  "faults empty_world = [] \<and>
   truthy (dict_get [(''type'', YStr ''mcq'')] ''type'') \<and>
   Suc (length (replicate 9 (build_question_row 7 ''basic'' []))) = BATCH_SIZE \<and>
   Suc (length ([] :: question_row list)) < BATCH_SIZE \<and>
   wf_levels QUESTION_DIFFICULTY_MAP
     [(''beginner'', YDict [(''questions'', YList [YDict [(''type'', YStr ''mcq'')]])])] \<and>
   blocks_are_mappings CONTENT_DIFFICULTY_MAP [(''beginner'', YDict [(''title'', YStr ''T1'')])] \<and>
   question_item ''TopicA'' ''Sub1'' 7 ''basic'' (YDict [(''type'', YStr ''mcq'')])
     (replicate 9 (build_question_row 7 ''basic'' []), empty_world) =
     (case safe_upsert_questions
             (replicate 9 (build_question_row 7 ''basic'' []) @
              [build_question_row 7 ''basic'' [(''type'', YStr ''mcq'')]]) empty_world of
        (Some e, w') \<Rightarrow>
          (Some e, (replicate 9 (build_question_row 7 ''basic'' []) @
                    [build_question_row 7 ''basic'' [(''type'', YStr ''mcq'')]], w'))
      | (None, w') \<Rightarrow> (None, ([], w'))) \<and>
   question_item ''TopicA'' ''Sub1'' 7 ''basic'' (YDict [(''type'', YStr ''mcq'')]) ([], empty_world) =
     (None, ([] @ [build_question_row 7 ''basic'' [(''type'', YStr ''mcq'')]], empty_world)) \<and>
   (\<exists>w'. question_subtopic ''TopicA'' 3
            (''Sub1'', Parsed (YDict [(''by_level'',
               YDict [(''beginner'', YDict [(''questions'', YList [YDict [(''type'', YStr ''mcq'')]])])])]))
            empty_world = (None, w') \<and>
         question_batches (new_events empty_world w') =
           batches_of BATCH_SIZE
             (expected_question_rows QUESTION_DIFFICULTY_MAP
                (fst (get_or_create_subtopic 3 ''Sub1'' empty_world))
                [(''beginner'', YDict [(''questions'', YList [YDict [(''type'', YStr ''mcq'')]])])])) \<and>
   (\<exists>w'. content_subtopic ''TopicA'' 3
            (''Sub1'', Parsed (YDict [(''beginner'', YDict [(''title'', YStr ''T1'')])])) empty_world =
            (None, w') \<and>
         content_batches (new_events empty_world w') =
           batches_of BATCH_SIZE
             (expected_content_rows CONTENT_DIFFICULTY_MAP
                (fst (get_or_create_subtopic 3 ''Sub1'' empty_world))
                [(''beginner'', YDict [(''title'', YStr ''T1'')])]))"
proof -
  have h1: "faults empty_world = []" by (simp add: empty_world_def)
  have h2: "truthy (dict_get [(''type'', YStr ''mcq'')] ''type'')" by (simp add: dict_get_def)
  have h3: "Suc (length (replicate 9 (build_question_row 7 ''basic'' []))) = BATCH_SIZE"
    by (simp add: BATCH_SIZE_def)
  have h4: "Suc (length ([] :: question_row list)) < BATCH_SIZE" by (simp add: BATCH_SIZE_def)
  have h5: "wf_levels QUESTION_DIFFICULTY_MAP
     [(''beginner'', YDict [(''questions'', YList [YDict [(''type'', YStr ''mcq'')]])])]"
    by (simp add: wf_levels_def QUESTION_DIFFICULTY_MAP_def wf_level_def is_dict_def)
  have h6: "blocks_are_mappings CONTENT_DIFFICULTY_MAP [(''beginner'', YDict [(''title'', YStr ''T1'')])]"
    by (simp add: blocks_are_mappings_def CONTENT_DIFFICULTY_MAP_def is_dict_def)
  have h7: "map_of [(''by_level'',
       YDict [(''beginner'', YDict [(''questions'', YList [YDict [(''type'', YStr ''mcq'')]])])])]
     ''by_level'' =
     Some (YDict [(''beginner'', YDict [(''questions'', YList [YDict [(''type'', YStr ''mcq'')]])])])"
    by simp
  note t = batched_writes [where w = empty_world and item = "[(''type'', YStr ''mcq'')]"
      and batch = "replicate 9 (build_question_row 7 ''basic'' [])" and short = "[]"
      and tn = "''TopicA''" and sn = "''Sub1''" and sid = 7 and dl = "''basic''" and tid = 3
      and kvs = "[(''by_level'',
         YDict [(''beginner'', YDict [(''questions'', YList [YDict [(''type'', YStr ''mcq'')]])])])]"
      and lv = "[(''beginner'', YDict [(''questions'', YList [YDict [(''type'', YStr ''mcq'')]])])]"
      and data = "[(''beginner'', YDict [(''title'', YStr ''T1'')])]"
      and corpus = "[]" and rows = "[]"]
  from t h1 h2 h3 h4 h5 h6 h7 show ?thesis by blast
qed


lemma item_rows_append [simp]: "item_rows sid dl (a @ b) = item_rows sid dl a @ item_rows sid dl b"
  by (simp add: item_rows_def)

lemma item_rows_untyped: "is_dict q \<Longrightarrow> \<not> has_type q \<Longrightarrow> item_rows sid dl [q] = []"
  by (cases q) (simp_all add: item_rows_def has_type_def)

lemma item_rows_typed:
  "truthy (dict_get item ''type'') \<Longrightarrow> item_rows sid dl [YDict item] = [build_question_row sid dl item]"
  by (simp add: item_rows_def)

lemma for_each_raises:
  assumes "x \<in> set xs" and "\<And>s. fst (body x s) \<noteq> None"
  shows "fst (for_each body xs s) \<noteq> None"
  using assms(1)
proof (induction xs arbitrary: s)
  case Nil
  then show ?case by simp
next
  case (Cons y ys)
  obtain r s1 where b: "body y s = (r, s1)" by (cases "body y s")
  show ?case
  proof (cases r)
    case (Some e)
    with b show ?thesis by simp
  next
    case None
    with b assms(2) [of s] have "x \<noteq> y" by auto
    with Cons.prems have "x \<in> set ys" by simp
    from Cons.IH [OF this, of s1] b None show ?thesis by simp
  qed
qed

lemma question_item_not_mapping:
  "\<not> is_dict q \<Longrightarrow> question_item tn sn sid dl q st = (Some AttributeError, st)"
  by (cases q; cases st) (simp_all add: question_item_def is_dict_def)

lemma question_level_raises:
  assumes "map_of lv yl = Some (YDict blk)" "map_of blk ''questions'' = Some (YList qs)"
    and "q \<in> set qs" "\<not> is_dict q"
  shows "fst (question_level tn sn sid (YDict lv) (yl, dl) st) \<noteq> None"
proof -
  have "fst (for_each (question_item tn sn sid dl) qs st) \<noteq> None"
    using assms(3) by (rule for_each_raises) (simp add: question_item_not_mapping [OF assms(4)])
  then show ?thesis using assms(1,2) by (simp add: question_level_present)
qed

lemma question_subtopic_raises:
  assumes "map_of kvs ''by_level'' = Some (YDict lv)" "(yl, dl) \<in> set QUESTION_DIFFICULTY_MAP"
    and "map_of lv yl = Some (YDict blk)" "map_of blk ''questions'' = Some (YList qs)"
    and "q \<in> set qs" "\<not> is_dict q"
  shows "fst (question_subtopic tn tid (sn, Parsed (YDict kvs)) w) \<noteq> None"
proof -
  obtain sid w1 where g: "get_or_create_subtopic tid sn w = (sid, w1)"
    by (cases "get_or_create_subtopic tid sn w")
  define w2 where "w2 = logging INFO (Processing_subtopic sn sid) w1"
  have "fst (for_each (question_level tn sn sid (YDict lv)) QUESTION_DIFFICULTY_MAP ([], w2)) \<noteq> None"
    using assms(2) by (rule for_each_raises) (rule question_level_raises [OF assms(3-6)])
  then show ?thesis
    by (auto simp: question_subtopic_def g assms(1) w2_def [symmetric] split: prod.splits option.splits)
qed

lemma ingest_questions_raises:
  assumes "(tn, subs) \<in> set corpus" "(sn, Parsed (YDict kvs)) \<in> set subs"
    and "map_of kvs ''by_level'' = Some (YDict lv)" "(yl, dl) \<in> set QUESTION_DIFFICULTY_MAP"
    and "map_of lv yl = Some (YDict blk)" "map_of blk ''questions'' = Some (YList qs)"
    and "q \<in> set qs" "\<not> is_dict q"
  shows "fst (ingest_questions corpus w) \<noteq> None"
proof -
  have topic: "fst (question_topic (tn, subs) s) \<noteq> None" for s
  proof -
    obtain tid w1 where g: "get_or_create_topic tn s = (tid, w1)"
      by (cases "get_or_create_topic tn s")
    have "fst (for_each (question_subtopic tn tid) subs (logging INFO (Processing_topic tn tid) w1)) \<noteq> None"
      using assms(2) by (rule for_each_raises) (rule question_subtopic_raises [OF assms(3-8)])
    then show ?thesis by (simp add: question_topic_def g)
  qed
  have "fst (for_each question_topic corpus w) \<noteq> None"
    using assms(1) by (rule for_each_raises) (rule topic)
  then show ?thesis
    by (auto simp: ingest_questions_def split: prod.splits option.splits)
qed

text \<open>
  C8, as the code has it. In the question flow an item that is a mapping whose type is
  missing or empty (any falsy value) is passed over with one warning and nothing else:
  the buffer and the store are untouched and no exception is raised, so the mapping
  items around it are buffered as if it were not there. When no write fails, a
  subtopic whose items are all mappings completes, the rows written are exactly those
  of its typed items, and the only warnings or errors logged are one skip warning for
  each untyped item. An item that is not a mapping is not skipped: reading its type
  raises \<open>AttributeError\<close> in \<open>question_item\<close>, nothing is logged, and whenever such
  an item stands in a list the run reaches, \<open>ingest\<close> ends with an exception.
\<close>

theorem untyped_mapping_items_skipped:
  "(\<not> truthy (dict_get item ''type'') \<longrightarrow>
      question_item tn sn sid dl (YDict item) (batch, w) =
        (None, (batch, logging WARNING (Skipping_question tn sn) w))) \<and>
   (\<not> truthy (dict_get item ''type'') \<longrightarrow>
      item_rows sid dl (before @ YDict item # after) = item_rows sid dl (before @ after)) \<and>
   (truthy (dict_get typed ''type'') \<longrightarrow>
      item_rows sid dl (before @ YDict typed # after) =
        item_rows sid dl before @ build_question_row sid dl typed # item_rows sid dl after) \<and>
   (faults w = [] \<and>
    map_of kvs ''by_level'' = Some (YDict lv) \<and>
    wf_levels QUESTION_DIFFICULTY_MAP lv \<longrightarrow>
      (\<exists>w'. question_subtopic tn tid (sn, Parsed (YDict kvs)) w = (None, w') \<and>
         question_rows_of (new_events w w') =
           expected_question_rows QUESTION_DIFFICULTY_MAP
             (fst (get_or_create_subtopic tid sn w)) lv \<and>
         filter is_alarm (new_events w w') =
           replicate (untyped_items QUESTION_DIFFICULTY_MAP lv)
             (Log WARNING (Skipping_question tn sn)))) \<and>
   (\<not> is_dict q \<longrightarrow>
      question_item tn sn sid dl q (batch, w) = (Some AttributeError, (batch, w))) \<and>
   ((tn, subs) \<in> set corpus \<and>
    (sn, Parsed (YDict bkvs)) \<in> set subs \<and>
    map_of bkvs ''by_level'' = Some (YDict blv) \<and>
    (yl, dl) \<in> set QUESTION_DIFFICULTY_MAP \<and>
    map_of blv yl = Some (YDict blk) \<and>
    map_of blk ''questions'' = Some (YList qs) \<and>
    q \<in> set qs \<and>
    \<not> is_dict q \<longrightarrow>
      fst (ingest_questions corpus start) \<noteq> None)"
proof -
  have c1: "question_item tn sn sid dl (YDict item) (batch, w) =
        (None, (batch, logging WARNING (Skipping_question tn sn) w))"
    if "\<not> truthy (dict_get item ''type'')"
    using that by (rule question_item_skip)
  have c2: "item_rows sid dl (before @ YDict item # after) = item_rows sid dl (before @ after)"
    if "\<not> truthy (dict_get item ''type'')"
    using that by (simp add: item_rows_def)
  have c3: "item_rows sid dl (before @ YDict typed # after) =
        item_rows sid dl before @ build_question_row sid dl typed # item_rows sid dl after"
    if "truthy (dict_get typed ''type'')"
    using that by (simp add: item_rows_def)
  have c4: "\<exists>w'. question_subtopic tn tid (sn, Parsed (YDict kvs)) w = (None, w') \<and>
         question_rows_of (new_events w w') =
           expected_question_rows QUESTION_DIFFICULTY_MAP
             (fst (get_or_create_subtopic tid sn w)) lv \<and>
         filter is_alarm (new_events w w') =
           replicate (untyped_items QUESTION_DIFFICULTY_MAP lv)
             (Log WARNING (Skipping_question tn sn))"
    if "faults w = []" "map_of kvs ''by_level'' = Some (YDict lv)"
      "wf_levels QUESTION_DIFFICULTY_MAP lv"
  proof -
    obtain sid' w1 where g: "get_or_create_subtopic tid sn w = (sid', w1)"
      by (cases "get_or_create_subtopic tid sn w")
    from question_subtopic_run [OF that g, of tn] obtain w' where
      r: "question_subtopic tn tid (sn, Parsed (YDict kvs)) w = (None, w')"
      "question_run tn sn w w'
        (batches_of BATCH_SIZE (expected_question_rows QUESTION_DIFFICULTY_MAP sid' lv))
        (untyped_items QUESTION_DIFFICULTY_MAP lv)" by blast
    from question_run_new_events [OF r(2)] r(1) g show ?thesis
      by (simp add: concat_batches_of)
  qed
  note c5 = question_item_not_mapping [of q tn sn sid dl "(batch, w)"]
  note c6 = ingest_questions_raises [of tn subs corpus sn bkvs blv yl dl blk qs q start]
  from c1 c2 c3 c4 c5 c6 show ?thesis by blast
qed

text \<open>
  C8 as claimed fails: an item that is \<open>null\<close> has no type, yet it is not skipped. With
  such an item first in \<open>Sub1\<close>, the run raises \<open>AttributeError\<close> with no warning
  logged and nothing written, the typed item after it is lost and \<open>Sub2\<close> is never
  visited. Moreover an item whose type is the empty string has the field and is
  skipped all the same.
\<close>

theorem non_mapping_item_aborts_counterexample:
  "fst (ingest_questions
          [(''TopicA'', [(''Sub1'', Parsed (YDict [(''by_level'', YDict [(''beginner'', YDict [(''questions'', YList [YNull, YDict [(''type'', YStr ''mcq'')]])])])])), (''Sub2'', Parsed (YDict [(''by_level'', YDict [(''beginner'', YDict [(''questions'', YList [YDict [(''type'', YStr ''mcq'')]])])])]))])]
          empty_world) = Some AttributeError \<and>
   questions (snd (ingest_questions
          [(''TopicA'', [(''Sub1'', Parsed (YDict [(''by_level'', YDict [(''beginner'', YDict [(''questions'', YList [YNull, YDict [(''type'', YStr ''mcq'')]])])])])), (''Sub2'', Parsed (YDict [(''by_level'', YDict [(''beginner'', YDict [(''questions'', YList [YDict [(''type'', YStr ''mcq'')]])])])]))])]
          empty_world)) = Map.empty \<and>
   subtopics (snd (ingest_questions
          [(''TopicA'', [(''Sub1'', Parsed (YDict [(''by_level'', YDict [(''beginner'', YDict [(''questions'', YList [YNull, YDict [(''type'', YStr ''mcq'')]])])])])), (''Sub2'', Parsed (YDict [(''by_level'', YDict [(''beginner'', YDict [(''questions'', YList [YDict [(''type'', YStr ''mcq'')]])])])]))])]
          empty_world)) (1, ''Sub2'') = None \<and>
   trace (snd (ingest_questions
          [(''TopicA'', [(''Sub1'', Parsed (YDict [(''by_level'', YDict [(''beginner'', YDict [(''questions'', YList [YNull, YDict [(''type'', YStr ''mcq'')]])])])])), (''Sub2'', Parsed (YDict [(''by_level'', YDict [(''beginner'', YDict [(''questions'', YList [YDict [(''type'', YStr ''mcq'')]])])])]))])]
          empty_world)) =
     [Log INFO (Processing_topic ''TopicA'' 1), Log INFO (Processing_subtopic ''Sub1'' 1)] \<and>
   question_item ''TopicA'' ''Sub1'' 1 ''basic'' (YDict [(''type'', YStr [])]) ([], empty_world) =
     (None, ([], logging WARNING (Skipping_question ''TopicA'' ''Sub1'') empty_world))"
  by (simp add: ingest_questions_def question_topic_def question_subtopic_def question_level_def
      question_item_def QUESTION_DIFFICULTY_MAP_def get_or_create_topic_def
      get_or_create_subtopic_def empty_world_def logging_def Let_def dict_get_def)

theorem untyped_mapping_items_skipped_witness:
  "\<not> truthy (dict_get [(''prompt'', YStr ''p'')] ''type'') \<and>
   truthy (dict_get [(''type'', YStr ''mcq'')] ''type'') \<and>
   faults empty_world = [] \<and>
   map_of [(''by_level'', YDict [(''beginner'', YDict [(''questions'', YList [YDict [(''prompt'', YStr ''p'')], YDict [(''type'', YStr ''mcq'')]])])])] ''by_level'' = Some (YDict [(''beginner'', YDict [(''questions'', YList [YDict [(''prompt'', YStr ''p'')], YDict [(''type'', YStr ''mcq'')]])])]) \<and>
   wf_levels QUESTION_DIFFICULTY_MAP [(''beginner'', YDict [(''questions'', YList [YDict [(''prompt'', YStr ''p'')], YDict [(''type'', YStr ''mcq'')]])])] \<and>
   \<not> is_dict YNull \<and>
   (''TopicA'', [(''Sub1'', Parsed (YDict [(''by_level'', YDict [(''beginner'', YDict [(''questions'', YList [YNull, YDict [(''type'', YStr ''mcq'')]])])])]))]) \<in> set [(''TopicA'', [(''Sub1'', Parsed (YDict [(''by_level'', YDict [(''beginner'', YDict [(''questions'', YList [YNull, YDict [(''type'', YStr ''mcq'')]])])])]))])] \<and>
   (''Sub1'', Parsed (YDict [(''by_level'', YDict [(''beginner'', YDict [(''questions'', YList [YNull, YDict [(''type'', YStr ''mcq'')]])])])])) \<in> set [(''Sub1'', Parsed (YDict [(''by_level'', YDict [(''beginner'', YDict [(''questions'', YList [YNull, YDict [(''type'', YStr ''mcq'')]])])])]))] \<and>
   map_of [(''by_level'', YDict [(''beginner'', YDict [(''questions'', YList [YNull, YDict [(''type'', YStr ''mcq'')]])])])] ''by_level'' = Some (YDict [(''beginner'', YDict [(''questions'', YList [YNull, YDict [(''type'', YStr ''mcq'')]])])]) \<and>
   (''beginner'', ''basic'') \<in> set QUESTION_DIFFICULTY_MAP \<and>
   map_of [(''beginner'', YDict [(''questions'', YList [YNull, YDict [(''type'', YStr ''mcq'')]])])] ''beginner'' = Some (YDict [(''questions'', YList [YNull, YDict [(''type'', YStr ''mcq'')]])]) \<and>
   map_of [(''questions'', YList [YNull, YDict [(''type'', YStr ''mcq'')]])] ''questions'' = Some (YList [YNull, YDict [(''type'', YStr ''mcq'')]]) \<and>
   YNull \<in> set [YNull, YDict [(''type'', YStr ''mcq'')]] \<and>
   (question_item ''TopicA'' ''Sub1'' 7 ''basic'' (YDict [(''prompt'', YStr ''p'')]) ([], empty_world) =
        (None, ([], logging WARNING (Skipping_question ''TopicA'' ''Sub1'') empty_world))) \<and>
   (item_rows 7 ''basic'' ([] @ YDict [(''prompt'', YStr ''p'')] # [YDict [(''type'', YStr ''mcq'')]]) = item_rows 7 ''basic'' ([] @ [YDict [(''type'', YStr ''mcq'')]])) \<and>
   (item_rows 7 ''basic'' ([] @ YDict [(''type'', YStr ''mcq'')] # [YDict [(''type'', YStr ''mcq'')]]) =
        item_rows 7 ''basic'' [] @ build_question_row 7 ''basic'' [(''type'', YStr ''mcq'')] # item_rows 7 ''basic'' [YDict [(''type'', YStr ''mcq'')]]) \<and>
   ((\<exists>w'. question_subtopic ''TopicA'' 3 (''Sub1'', Parsed (YDict [(''by_level'', YDict [(''beginner'', YDict [(''questions'', YList [YDict [(''prompt'', YStr ''p'')], YDict [(''type'', YStr ''mcq'')]])])])])) empty_world = (None, w') \<and>
         question_rows_of (new_events empty_world w') =
           expected_question_rows QUESTION_DIFFICULTY_MAP
             (fst (get_or_create_subtopic 3 ''Sub1'' empty_world)) [(''beginner'', YDict [(''questions'', YList [YDict [(''prompt'', YStr ''p'')], YDict [(''type'', YStr ''mcq'')]])])] \<and>
         filter is_alarm (new_events empty_world w') =
           replicate (untyped_items QUESTION_DIFFICULTY_MAP [(''beginner'', YDict [(''questions'', YList [YDict [(''prompt'', YStr ''p'')], YDict [(''type'', YStr ''mcq'')]])])])
             (Log WARNING (Skipping_question ''TopicA'' ''Sub1'')))) \<and>
   (question_item ''TopicA'' ''Sub1'' 7 ''basic'' YNull ([], empty_world) = (Some AttributeError, ([], empty_world))) \<and>
   (fst (ingest_questions [(''TopicA'', [(''Sub1'', Parsed (YDict [(''by_level'', YDict [(''beginner'', YDict [(''questions'', YList [YNull, YDict [(''type'', YStr ''mcq'')]])])])]))])] empty_world) \<noteq> None)"
proof -
  have h1: "\<not> truthy (dict_get [(''prompt'', YStr ''p'')] ''type'')"
    by (simp add: dict_get_def)
  have h2: "truthy (dict_get [(''type'', YStr ''mcq'')] ''type'')"
    by (simp add: dict_get_def)
  have h3: "faults empty_world = []"
    by (simp add: empty_world_def)
  have h4: "map_of [(''by_level'', YDict [(''beginner'', YDict [(''questions'', YList [YDict [(''prompt'', YStr ''p'')], YDict [(''type'', YStr ''mcq'')]])])])] ''by_level'' = Some (YDict [(''beginner'', YDict [(''questions'', YList [YDict [(''prompt'', YStr ''p'')], YDict [(''type'', YStr ''mcq'')]])])])"
    by simp
  have h5: "wf_levels QUESTION_DIFFICULTY_MAP [(''beginner'', YDict [(''questions'', YList [YDict [(''prompt'', YStr ''p'')], YDict [(''type'', YStr ''mcq'')]])])]"
    by (simp add: wf_levels_def QUESTION_DIFFICULTY_MAP_def wf_level_def is_dict_def)
  have h6: "\<not> is_dict YNull"
    by (simp add: is_dict_def)
  have h7: "(''TopicA'', [(''Sub1'', Parsed (YDict [(''by_level'', YDict [(''beginner'', YDict [(''questions'', YList [YNull, YDict [(''type'', YStr ''mcq'')]])])])]))]) \<in> set [(''TopicA'', [(''Sub1'', Parsed (YDict [(''by_level'', YDict [(''beginner'', YDict [(''questions'', YList [YNull, YDict [(''type'', YStr ''mcq'')]])])])]))])]"
    by simp
  have h8: "(''Sub1'', Parsed (YDict [(''by_level'', YDict [(''beginner'', YDict [(''questions'', YList [YNull, YDict [(''type'', YStr ''mcq'')]])])])])) \<in> set [(''Sub1'', Parsed (YDict [(''by_level'', YDict [(''beginner'', YDict [(''questions'', YList [YNull, YDict [(''type'', YStr ''mcq'')]])])])]))]"
    by simp
  have h9: "map_of [(''by_level'', YDict [(''beginner'', YDict [(''questions'', YList [YNull, YDict [(''type'', YStr ''mcq'')]])])])] ''by_level'' = Some (YDict [(''beginner'', YDict [(''questions'', YList [YNull, YDict [(''type'', YStr ''mcq'')]])])])"
    by simp
  have h10: "(''beginner'', ''basic'') \<in> set QUESTION_DIFFICULTY_MAP"
    by (simp add: QUESTION_DIFFICULTY_MAP_def)
  have h11: "map_of [(''beginner'', YDict [(''questions'', YList [YNull, YDict [(''type'', YStr ''mcq'')]])])] ''beginner'' = Some (YDict [(''questions'', YList [YNull, YDict [(''type'', YStr ''mcq'')]])])"
    by simp
  have h12: "map_of [(''questions'', YList [YNull, YDict [(''type'', YStr ''mcq'')]])] ''questions'' = Some (YList [YNull, YDict [(''type'', YStr ''mcq'')]])"
    by simp
  have h13: "YNull \<in> set [YNull, YDict [(''type'', YStr ''mcq'')]]"
    by simp
  note t = untyped_mapping_items_skipped [where w = "empty_world" and
      start = "empty_world" and
      item = "[(''prompt'', YStr ''p'')]" and
      typed = "[(''type'', YStr ''mcq'')]" and
      batch = "[]" and
      before = "[]" and
      after = "[YDict [(''type'', YStr ''mcq'')]]" and
      tn = "''TopicA''" and
      sn = "''Sub1''" and
      sid = "7" and
      dl = "''basic''" and
      tid = "3" and
      kvs = "[(''by_level'', YDict [(''beginner'', YDict [(''questions'', YList [YDict [(''prompt'', YStr ''p'')], YDict [(''type'', YStr ''mcq'')]])])])]" and
      lv = "[(''beginner'', YDict [(''questions'', YList [YDict [(''prompt'', YStr ''p'')], YDict [(''type'', YStr ''mcq'')]])])]" and
      q = "YNull" and
      corpus = "[(''TopicA'', [(''Sub1'', Parsed (YDict [(''by_level'', YDict [(''beginner'', YDict [(''questions'', YList [YNull, YDict [(''type'', YStr ''mcq'')]])])])]))])]" and
      subs = "[(''Sub1'', Parsed (YDict [(''by_level'', YDict [(''beginner'', YDict [(''questions'', YList [YNull, YDict [(''type'', YStr ''mcq'')]])])])]))]" and
      bkvs = "[(''by_level'', YDict [(''beginner'', YDict [(''questions'', YList [YNull, YDict [(''type'', YStr ''mcq'')]])])])]" and
      blv = "[(''beginner'', YDict [(''questions'', YList [YNull, YDict [(''type'', YStr ''mcq'')]])])]" and
      yl = "''beginner''" and
      blk = "[(''questions'', YList [YNull, YDict [(''type'', YStr ''mcq'')]])]" and
      qs = "[YNull, YDict [(''type'', YStr ''mcq'')]]"]
  from t h1 h2 h3 h4 h5 h6 h7 h8 h9 h10 h11 h12 h13 show ?thesis by blast
qed


text \<open>
  C2. The content table maps beginner, intermediate and advanced to basic, core and
  advanced; the question table maps them to basic, core and mastery. The rows a
  subtopic's file produces are those of its beginner level stamped basic, then those
  of its intermediate level stamped core, then those of its advanced level stamped
  advanced in the content flow and mastery in the question flow; when no write fails
  these are exactly the rows each flow writes for a well-formed subtopic.
\<close>

theorem difficulty_remap:
  "map_of CONTENT_DIFFICULTY_MAP ''beginner'' = Some ''basic'' \<and>
   map_of CONTENT_DIFFICULTY_MAP ''intermediate'' = Some ''core'' \<and>
   map_of CONTENT_DIFFICULTY_MAP ''advanced'' = Some ''advanced'' \<and>
   map_of QUESTION_DIFFICULTY_MAP ''beginner'' = Some ''basic'' \<and>
   map_of QUESTION_DIFFICULTY_MAP ''intermediate'' = Some ''core'' \<and>
   map_of QUESTION_DIFFICULTY_MAP ''advanced'' = Some ''mastery'' \<and>
   expected_content_rows CONTENT_DIFFICULTY_MAP sid data =
     block_rows sid ''basic'' (map_of data ''beginner'') @
     block_rows sid ''core'' (map_of data ''intermediate'') @
     block_rows sid ''advanced'' (map_of data ''advanced'') \<and>
   expected_question_rows QUESTION_DIFFICULTY_MAP sid lv =
     item_rows sid ''basic'' (level_items lv ''beginner'') @
     item_rows sid ''core'' (level_items lv ''intermediate'') @
     item_rows sid ''mastery'' (level_items lv ''advanced'') \<and>
   list_all (\<lambda>r. difficulty r = dl) (block_rows sid dl b) \<and>
   list_all (\<lambda>r. q_difficulty r = dl) (item_rows sid dl qs) \<and>
   (faults w = [] \<and> blocks_are_mappings CONTENT_DIFFICULTY_MAP data \<longrightarrow>
      (\<exists>w'. content_subtopic tn tid (sn, Parsed (YDict data)) w = (None, w') \<and>
         content_rows_of (new_events w w') =
           expected_content_rows CONTENT_DIFFICULTY_MAP
             (fst (get_or_create_subtopic tid sn w)) data)) \<and>
   (faults w = [] \<and> map_of kvs ''by_level'' = Some (YDict lv) \<and>
    wf_levels QUESTION_DIFFICULTY_MAP lv \<longrightarrow>
      (\<exists>w'. question_subtopic tn tid (sn, Parsed (YDict kvs)) w = (None, w') \<and>
         question_rows_of (new_events w w') =
           expected_question_rows QUESTION_DIFFICULTY_MAP
             (fst (get_or_create_subtopic tid sn w)) lv))"
proof -
  have c1: "list_all (\<lambda>r. difficulty r = dl) (block_rows sid dl b)"
    by (simp add: block_rows_def build_content_row_def split: option.splits yaml.splits)
  have c2: "list_all (\<lambda>r. q_difficulty r = dl) (item_rows sid dl qs)"
    by (induction qs)
       (simp_all add: item_rows_def build_question_row_def split: yaml.splits)
  have c3: "\<exists>w'. content_subtopic tn tid (sn, Parsed (YDict data)) w = (None, w') \<and>
         content_rows_of (new_events w w') =
           expected_content_rows CONTENT_DIFFICULTY_MAP
             (fst (get_or_create_subtopic tid sn w)) data"
    if "faults w = []" "blocks_are_mappings CONTENT_DIFFICULTY_MAP data"
  proof -
    obtain sid' w1 where g: "get_or_create_subtopic tid sn w = (sid', w1)"
      by (cases "get_or_create_subtopic tid sn w")
    from content_subtopic_run [OF that g, of tn] show ?thesis
      using g by (auto simp: new_events_def)
  qed
  have c4: "\<exists>w'. question_subtopic tn tid (sn, Parsed (YDict kvs)) w = (None, w') \<and>
         question_rows_of (new_events w w') =
           expected_question_rows QUESTION_DIFFICULTY_MAP
             (fst (get_or_create_subtopic tid sn w)) lv"
    if "faults w = []" "map_of kvs ''by_level'' = Some (YDict lv)"
      "wf_levels QUESTION_DIFFICULTY_MAP lv"
  proof -
    obtain sid' w1 where g: "get_or_create_subtopic tid sn w = (sid', w1)"
      by (cases "get_or_create_subtopic tid sn w")
    from question_subtopic_run [OF that g, of tn] obtain w' where
      r: "question_subtopic tn tid (sn, Parsed (YDict kvs)) w = (None, w')"
      "question_run tn sn w w'
        (batches_of BATCH_SIZE (expected_question_rows QUESTION_DIFFICULTY_MAP sid' lv))
        (untyped_items QUESTION_DIFFICULTY_MAP lv)" by blast
    from question_run_new_events [OF r(2)] r(1) g show ?thesis
      by (simp add: concat_batches_of)
  qed
  have tables:
    "map_of CONTENT_DIFFICULTY_MAP ''beginner'' = Some ''basic''"
    "map_of CONTENT_DIFFICULTY_MAP ''intermediate'' = Some ''core''"
    "map_of CONTENT_DIFFICULTY_MAP ''advanced'' = Some ''advanced''"
    "map_of QUESTION_DIFFICULTY_MAP ''beginner'' = Some ''basic''"
    "map_of QUESTION_DIFFICULTY_MAP ''intermediate'' = Some ''core''"
    "map_of QUESTION_DIFFICULTY_MAP ''advanced'' = Some ''mastery''"
    by (simp_all add: CONTENT_DIFFICULTY_MAP_def QUESTION_DIFFICULTY_MAP_def)
  have e1: "expected_content_rows CONTENT_DIFFICULTY_MAP sid data =
     block_rows sid ''basic'' (map_of data ''beginner'') @
     block_rows sid ''core'' (map_of data ''intermediate'') @
     block_rows sid ''advanced'' (map_of data ''advanced'')"
    by (simp add: expected_content_rows_def CONTENT_DIFFICULTY_MAP_def)
  have e2: "expected_question_rows QUESTION_DIFFICULTY_MAP sid lv =
     item_rows sid ''basic'' (level_items lv ''beginner'') @
     item_rows sid ''core'' (level_items lv ''intermediate'') @
     item_rows sid ''mastery'' (level_items lv ''advanced'')"
    by (simp add: expected_question_rows_def QUESTION_DIFFICULTY_MAP_def)
  from tables e1 e2 c1 c2 c3 c4 show ?thesis by blast
qed

theorem difficulty_remap_witness:
  "faults empty_world = [] \<and>
   blocks_are_mappings CONTENT_DIFFICULTY_MAP [(''advanced'', YDict [(''title'', YStr ''T1'')])] \<and>
   wf_levels QUESTION_DIFFICULTY_MAP
     [(''advanced'', YDict [(''questions'', YList [YDict [(''type'', YStr ''mcq'')]])])] \<and>
   (\<exists>w'. content_subtopic ''TopicA'' 3
            (''Sub1'', Parsed (YDict [(''advanced'', YDict [(''title'', YStr ''T1'')])])) empty_world =
            (None, w') \<and>
         content_rows_of (new_events empty_world w') =
           expected_content_rows CONTENT_DIFFICULTY_MAP
             (fst (get_or_create_subtopic 3 ''Sub1'' empty_world))
             [(''advanced'', YDict [(''title'', YStr ''T1'')])]) \<and>
   (\<exists>w'. question_subtopic ''TopicA'' 3
            (''Sub1'', Parsed (YDict [(''by_level'',
               YDict [(''advanced'', YDict [(''questions'', YList [YDict [(''type'', YStr ''mcq'')]])])])]))
            empty_world = (None, w') \<and>
         question_rows_of (new_events empty_world w') =
           expected_question_rows QUESTION_DIFFICULTY_MAP
             (fst (get_or_create_subtopic 3 ''Sub1'' empty_world))
             [(''advanced'', YDict [(''questions'', YList [YDict [(''type'', YStr ''mcq'')]])])])"
proof -
  have h1: "faults empty_world = []" by (simp add: empty_world_def)
  have h2: "blocks_are_mappings CONTENT_DIFFICULTY_MAP [(''advanced'', YDict [(''title'', YStr ''T1'')])]"
    by (simp add: blocks_are_mappings_def CONTENT_DIFFICULTY_MAP_def is_dict_def)
  have h3: "wf_levels QUESTION_DIFFICULTY_MAP
     [(''advanced'', YDict [(''questions'', YList [YDict [(''type'', YStr ''mcq'')]])])]"
    by (simp add: wf_levels_def QUESTION_DIFFICULTY_MAP_def wf_level_def is_dict_def)
  have h4: "map_of [(''by_level'',
       YDict [(''advanced'', YDict [(''questions'', YList [YDict [(''type'', YStr ''mcq'')]])])])]
     ''by_level'' =
     Some (YDict [(''advanced'', YDict [(''questions'', YList [YDict [(''type'', YStr ''mcq'')]])])])"
    by simp
  note t = difficulty_remap [where w = empty_world
      and tn = "''TopicA''" and sn = "''Sub1''" and tid = 3
      and data = "[(''advanced'', YDict [(''title'', YStr ''T1'')])]"
      and kvs = "[(''by_level'',
         YDict [(''advanced'', YDict [(''questions'', YList [YDict [(''type'', YStr ''mcq'')]])])])]"
      and lv = "[(''advanced'', YDict [(''questions'', YList [YDict [(''type'', YStr ''mcq'')]])])]"]
  from t h1 h2 h3 h4 show ?thesis by blast
qed

text \<open>
  C9. Both flows walk their three-entry table, not the file's keys. A subtopic is
  processed in exactly the same way (same outcome, same writes, same log) by any two
  files that agree on the three recognised levels, so any other key is ignored
  without a trace; and the turn of the loop for a recognised level that the file
  lacks changes nothing: no row is buffered and nothing is logged.
\<close>

theorem only_table_levels_read:
  "map fst CONTENT_DIFFICULTY_MAP = [''beginner'', ''intermediate'', ''advanced''] \<and>
   map fst QUESTION_DIFFICULTY_MAP = [''beginner'', ''intermediate'', ''advanced''] \<and>
   (map_of data ''beginner'' = map_of data' ''beginner'' \<and>
    map_of data ''intermediate'' = map_of data' ''intermediate'' \<and>
    map_of data ''advanced'' = map_of data' ''advanced'' \<longrightarrow>
      content_subtopic tn tid (sn, Parsed (YDict data)) w =
      content_subtopic tn tid (sn, Parsed (YDict data')) w) \<and>
   (map_of kvs ''by_level'' = Some (YDict lv) \<and> map_of kvs' ''by_level'' = Some (YDict lv') \<and>
    map_of lv ''beginner'' = map_of lv' ''beginner'' \<and>
    map_of lv ''intermediate'' = map_of lv' ''intermediate'' \<and>
    map_of lv ''advanced'' = map_of lv' ''advanced'' \<longrightarrow>
      question_subtopic tn tid (sn, Parsed (YDict kvs)) w =
      question_subtopic tn tid (sn, Parsed (YDict kvs')) w) \<and>
   (map_of data yl = None \<longrightarrow> content_level sid data (yl, dl) rows = (None, rows)) \<and>
   (map_of lv yl = None \<longrightarrow> question_level tn sn sid (YDict lv) (yl, dl) st = (None, st))"
proof -
  have c1: "content_subtopic tn tid (sn, Parsed (YDict data)) w =
      content_subtopic tn tid (sn, Parsed (YDict data')) w"
    if "map_of data ''beginner'' = map_of data' ''beginner''"
      "map_of data ''intermediate'' = map_of data' ''intermediate''"
      "map_of data ''advanced'' = map_of data' ''advanced''"
  proof -
    have "for_each (content_level sid' data) CONTENT_DIFFICULTY_MAP s =
        for_each (content_level sid' data') CONTENT_DIFFICULTY_MAP s" for sid' s
      by (rule for_each_cong)
         (use that in \<open>auto simp: CONTENT_DIFFICULTY_MAP_def content_level_def\<close>)
    then show ?thesis by (simp add: content_subtopic_def)
  qed
  have c2: "question_subtopic tn tid (sn, Parsed (YDict kvs)) w =
      question_subtopic tn tid (sn, Parsed (YDict kvs')) w"
    if "map_of kvs ''by_level'' = Some (YDict lv)" "map_of kvs' ''by_level'' = Some (YDict lv')"
      "map_of lv ''beginner'' = map_of lv' ''beginner''"
      "map_of lv ''intermediate'' = map_of lv' ''intermediate''"
      "map_of lv ''advanced'' = map_of lv' ''advanced''"
  proof -
    have same: "question_level tn sn sid' (YDict lv) (l, d) s =
        question_level tn sn sid' (YDict lv') (l, d) s"
      if eq: "map_of lv l = map_of lv' l" for sid' l d s
    proof (cases "map_of lv l")
      case None
      moreover from None eq have "map_of lv' l = None" by simp
      ultimately show ?thesis by (simp add: question_level_def)
    next
      case (Some v)
      moreover from Some eq have "map_of lv' l = Some v" by simp
      ultimately show ?thesis by (simp add: question_level_def)
    qed
    have "for_each (question_level tn sn sid' (YDict lv)) QUESTION_DIFFICULTY_MAP s =
        for_each (question_level tn sn sid' (YDict lv')) QUESTION_DIFFICULTY_MAP s" for sid' s
      by (rule for_each_cong)
         (use that(3-5) same in \<open>auto simp: QUESTION_DIFFICULTY_MAP_def\<close>)
    then show ?thesis using that(1,2) by (simp add: question_subtopic_def)
  qed
  have c3: "content_level sid data (yl, dl) rows = (None, rows)" if "map_of data yl = None"
    using that by (simp add: content_level_def)
  have c4: "question_level tn sn sid (YDict lv) (yl, dl) st = (None, st)" if "map_of lv yl = None"
    using that by (rule question_level_absent)
  have keys: "map fst CONTENT_DIFFICULTY_MAP = [''beginner'', ''intermediate'', ''advanced'']"
    "map fst QUESTION_DIFFICULTY_MAP = [''beginner'', ''intermediate'', ''advanced'']"
    by (simp_all add: CONTENT_DIFFICULTY_MAP_def QUESTION_DIFFICULTY_MAP_def)
  from keys c1 c2 c3 c4 show ?thesis by blast
qed


theorem only_table_levels_read_witness:
  "map_of [(''beginner'', YDict []), (''expert'', YInt 1)] ''beginner'' = map_of [(''beginner'', YDict [])] ''beginner'' \<and>
   map_of [(''beginner'', YDict []), (''expert'', YInt 1)] ''intermediate'' = map_of [(''beginner'', YDict [])] ''intermediate'' \<and>
   map_of [(''beginner'', YDict []), (''expert'', YInt 1)] ''advanced'' = map_of [(''beginner'', YDict [])] ''advanced'' \<and>
   map_of [(''beginner'', YDict []), (''expert'', YInt 1)] ''advanced'' = None \<and>
   content_subtopic ''TopicA'' 3
     (''Sub1'', Parsed (YDict [(''beginner'', YDict []), (''expert'', YInt 1)])) empty_world =
   content_subtopic ''TopicA'' 3 (''Sub1'', Parsed (YDict [(''beginner'', YDict [])])) empty_world \<and>
   question_subtopic ''TopicA'' 3
     (''Sub1'', Parsed (YDict [(''by_level'', YDict [(''beginner'', YDict []), (''expert'', YInt 1)])]))
     empty_world =
   question_subtopic ''TopicA'' 3
     (''Sub1'', Parsed (YDict [(''by_level'', YDict [(''beginner'', YDict [])])])) empty_world \<and>
   content_level 7 [(''beginner'', YDict []), (''expert'', YInt 1)] (''advanced'', ''advanced'') [] =
     (None, []) \<and>
   question_level ''TopicA'' ''Sub1'' 7 (YDict [(''beginner'', YDict []), (''expert'', YInt 1)])
     (''advanced'', ''advanced'') ([], empty_world) = (None, ([], empty_world))"
proof -
  have h1: "map_of [(''beginner'', YDict []), (''expert'', YInt 1)] ''beginner'' =
      map_of [(''beginner'', YDict [])] ''beginner''" by simp
  have h2: "map_of [(''beginner'', YDict []), (''expert'', YInt 1)] ''intermediate'' =
      map_of [(''beginner'', YDict [])] ''intermediate''" by simp
  have h3: "map_of [(''beginner'', YDict []), (''expert'', YInt 1)] ''advanced'' =
      map_of [(''beginner'', YDict [])] ''advanced''" by simp
  have h4: "map_of [(''beginner'', YDict []), (''expert'', YInt 1)] ''advanced'' = None" by simp
  have h5: "map_of [(''by_level'', YDict [(''beginner'', YDict []), (''expert'', YInt 1)])] ''by_level'' =
      Some (YDict [(''beginner'', YDict []), (''expert'', YInt 1)])" by simp
  have h6: "map_of [(''by_level'', YDict [(''beginner'', YDict [])])] ''by_level'' =
      Some (YDict [(''beginner'', YDict [])])" by simp
  note t = only_table_levels_read [where w = empty_world
      and tn = "''TopicA''" and sn = "''Sub1''" and tid = 3 and sid = 7
      and data = "[(''beginner'', YDict []), (''expert'', YInt 1)]"
      and data' = "[(''beginner'', YDict [])]"
      and kvs = "[(''by_level'', YDict [(''beginner'', YDict []), (''expert'', YInt 1)])]"
      and kvs' = "[(''by_level'', YDict [(''beginner'', YDict [])])]"
      and lv = "[(''beginner'', YDict []), (''expert'', YInt 1)]"
      and lv' = "[(''beginner'', YDict [])]"
      and yl = "''advanced''" and dl = "''advanced''" and rows = "[]" and st = "([], empty_world)"]
  from t h1 h2 h3 h4 h5 h6 show ?thesis by blast
qed


text \<open>
  C7. Starting from an empty store, with no write failing, a corpus of one topic
  \<open>TopicA\<close> with one subtopic \<open>Sub1\<close> whose content file holds a beginner, an
  intermediate and an advanced block (three mappings) is ingested to completion and
  leaves one topics row named \<open>TopicA\<close>, one subtopics row for \<open>Sub1\<close> under that
  topic, and three content rows, stored under the difficulties basic, core and
  advanced, each carrying its block and the fingerprint of its block as
  \<open>content_hash\<close>.
\<close>

theorem scenario_three_levels:
  assumes "map_of data ''beginner'' = Some (YDict b)"
    and "map_of data ''intermediate'' = Some (YDict i)"
    and "map_of data ''advanced'' = Some (YDict a)"
  shows "\<exists>w'. ingest_content [(''TopicA'', [(''Sub1'', Parsed (YDict data))])] empty_world = (None, w') \<and>
    topics w' = [''TopicA'' \<mapsto> 1] \<and>
    subtopics w' = [(1, ''Sub1'') \<mapsto> 1] \<and>
    content w' = [(1, ''basic'') \<mapsto> build_content_row 1 ''basic'' b,
                  (1, ''core'') \<mapsto> build_content_row 1 ''core'' i,
                  (1, ''advanced'') \<mapsto> build_content_row 1 ''advanced'' a] \<and>
    card (dom (topics w')) = 1 \<and> card (dom (subtopics w')) = 1 \<and> card (dom (content w')) = 3 \<and>
    content_json (build_content_row 1 ''basic'' b) = YDict b \<and>
    content_hash (build_content_row 1 ''basic'' b) = hash_content (YDict b) \<and>
    content_json (build_content_row 1 ''core'' i) = YDict i \<and>
    content_hash (build_content_row 1 ''core'' i) = hash_content (YDict i) \<and>
    content_json (build_content_row 1 ''advanced'' a) = YDict a \<and>
    content_hash (build_content_row 1 ''advanced'' a) = hash_content (YDict a)"
proof -
  have loop: "for_each (content_level s data) CONTENT_DIFFICULTY_MAP [] =
      (None, [build_content_row s ''basic'' b, build_content_row s ''core'' i,
              build_content_row s ''advanced'' a])" for s
    using assms by (simp add: CONTENT_DIFFICULTY_MAP_def content_level_def)
  have keys: "content_key (build_content_row s d k) = (s, d)" for s d k
    by (simp add: content_key_def build_content_row_def)
  show ?thesis
    by (simp add: ingest_content_def content_topic_def content_subtopic_def
        get_or_create_topic_def get_or_create_subtopic_def empty_world_def logging_def
        loop safe_upsert_content_ok upsert_content_def keys Let_def)
       (simp add: build_content_row_def)
qed


theorem scenario_three_levels_witness:
  "map_of [(''beginner'', YDict [(''title'', YStr ''T1'')]),
           (''intermediate'', YDict [(''title'', YStr ''T1'')]),
           (''advanced'', YDict [(''title'', YStr ''T1'')])] ''beginner'' =
     Some (YDict [(''title'', YStr ''T1'')]) \<and>
   map_of [(''beginner'', YDict [(''title'', YStr ''T1'')]),
           (''intermediate'', YDict [(''title'', YStr ''T1'')]),
           (''advanced'', YDict [(''title'', YStr ''T1'')])] ''intermediate'' =
     Some (YDict [(''title'', YStr ''T1'')]) \<and>
   map_of [(''beginner'', YDict [(''title'', YStr ''T1'')]),
           (''intermediate'', YDict [(''title'', YStr ''T1'')]),
           (''advanced'', YDict [(''title'', YStr ''T1'')])] ''advanced'' =
     Some (YDict [(''title'', YStr ''T1'')]) \<and>
   (\<exists>w'. ingest_content
           [(''TopicA'', [(''Sub1'', Parsed (YDict
              [(''beginner'', YDict [(''title'', YStr ''T1'')]),
               (''intermediate'', YDict [(''title'', YStr ''T1'')]),
               (''advanced'', YDict [(''title'', YStr ''T1'')])]))])] empty_world = (None, w') \<and>
      topics w' = [''TopicA'' \<mapsto> 1] \<and>
      subtopics w' = [(1, ''Sub1'') \<mapsto> 1] \<and>
      content w' =
        [(1, ''basic'') \<mapsto> build_content_row 1 ''basic'' [(''title'', YStr ''T1'')],
         (1, ''core'') \<mapsto> build_content_row 1 ''core'' [(''title'', YStr ''T1'')],
         (1, ''advanced'') \<mapsto> build_content_row 1 ''advanced'' [(''title'', YStr ''T1'')]] \<and>
      card (dom (content w')) = 3)"
proof -
  have h1: "map_of [(''beginner'', YDict [(''title'', YStr ''T1'')]),
           (''intermediate'', YDict [(''title'', YStr ''T1'')]),
           (''advanced'', YDict [(''title'', YStr ''T1'')])] ''beginner'' =
     Some (YDict [(''title'', YStr ''T1'')])" by simp
  have h2: "map_of [(''beginner'', YDict [(''title'', YStr ''T1'')]),
           (''intermediate'', YDict [(''title'', YStr ''T1'')]),
           (''advanced'', YDict [(''title'', YStr ''T1'')])] ''intermediate'' =
     Some (YDict [(''title'', YStr ''T1'')])" by simp
  have h3: "map_of [(''beginner'', YDict [(''title'', YStr ''T1'')]),
           (''intermediate'', YDict [(''title'', YStr ''T1'')]),
           (''advanced'', YDict [(''title'', YStr ''T1'')])] ''advanced'' =
     Some (YDict [(''title'', YStr ''T1'')])" by simp
  from scenario_three_levels [OF h1 h2 h3] h1 h2 h3 show ?thesis by blast
qed

text \<open>
  C6, the content flow at a file that does not parse: \<open>yaml.safe_load\<close> is called
  outside any \<open>try\<close>, so the parse error leaves \<open>ingest\<close>. No error is logged, the run
  does not complete, and the subtopic after the bad one is never visited. The question
  flow, on the same corpus, logs the failure, goes on and completes.
\<close>

theorem content_parse_failure_aborts_run:
  "fst (ingest_content
          [(''TopicA'', [(''Bad'', Unparsable),
                         (''Good'', Parsed (YDict [(''beginner'', YDict [(''title'', YStr ''T1'')])]))])]
          empty_world) = Some YAMLError \<and>
   trace (snd (ingest_content
          [(''TopicA'', [(''Bad'', Unparsable),
                         (''Good'', Parsed (YDict [(''beginner'', YDict [(''title'', YStr ''T1'')])]))])]
          empty_world)) =
     [Log INFO (Processing_topic ''TopicA'' 1), Log INFO (Processing_subtopic ''Bad'' 1)] \<and>
   content (snd (ingest_content
          [(''TopicA'', [(''Bad'', Unparsable),
                         (''Good'', Parsed (YDict [(''beginner'', YDict [(''title'', YStr ''T1'')])]))])]
          empty_world)) = Map.empty \<and>
   fst (ingest_questions
          [(''TopicA'', [(''Bad'', Unparsable),
                         (''Good'', Parsed (YDict [(''by_level'', YDict [])]))])]
          empty_world) = None \<and>
   trace (snd (ingest_questions
          [(''TopicA'', [(''Bad'', Unparsable),
                         (''Good'', Parsed (YDict [(''by_level'', YDict [])]))])]
          empty_world)) =
     [Log INFO (Processing_topic ''TopicA'' 1), Log INFO (Processing_subtopic ''Bad'' 1),
      Log ERROR (Failed_to_parse ''TopicA'' ''Bad''), Log INFO (Processing_subtopic ''Good'' 2),
      Log INFO Ingestion_completed]"
  by (simp add: ingest_content_def content_topic_def content_subtopic_def
      ingest_questions_def question_topic_def question_subtopic_def question_level_def
      QUESTION_DIFFICULTY_MAP_def
      get_or_create_topic_def get_or_create_subtopic_def empty_world_def logging_def Let_def)



lemma is_sleep_simps [simp]:
  "is_sleep (Sleep n)" "\<not> is_sleep (Log l m)"
  "\<not> is_sleep (Content_request cr ok)" "\<not> is_sleep (Question_request qr ok)"
  by (simp_all add: is_sleep_def)

















subsection \<open>Running a flow again\<close>

lemma content_subtopic_unfold:
  "get_or_create_subtopic tid sn w = (sid, w1) \<Longrightarrow>
   content_subtopic tn tid (sn, f) w = content_after tn sn sid f w1"
  by (simp add: content_subtopic_def content_after_def)

lemma question_subtopic_unfold:
  "get_or_create_subtopic tid sn w = (sid, w1) \<Longrightarrow>
   question_subtopic tn tid (sn, f) w = question_after tn sn sid f w1"
  by (simp add: question_subtopic_def question_after_def)

lemma mirrors_refl: "faults w = [] \<Longrightarrow> faults v = [] \<Longrightarrow> mirrors w v w v"
  by (simp add: mirrors_def)

lemma mirrors_trans:
  "mirrors w0 v0 w1 v1 \<Longrightarrow> mirrors w1 v1 w2 v2 \<Longrightarrow> mirrors w0 v0 w2 v2"
  by (auto simp: mirrors_def)

lemma mirrors_logging:
  "mirrors w0 v0 w v \<Longrightarrow> mirrors w0 v0 (logging l m w) (logging l m v)"
  by (auto simp: mirrors_def logging_def)

lemma mirrors_upsert_content:
  "mirrors w0 v0 w v \<Longrightarrow>
   mirrors w0 v0
     (w\<lparr>content := c, trace := trace w @ [e]\<rparr>) (v\<lparr>content := c', trace := trace v @ [e]\<rparr>)"
  by (auto simp: mirrors_def)

lemma mirrors_upsert_questions:
  "mirrors w0 v0 w v \<Longrightarrow>
   mirrors w0 v0
     (w\<lparr>questions := c, trace := trace w @ [e]\<rparr>) (v\<lparr>questions := c', trace := trace v @ [e]\<rparr>)"
  by (auto simp: mirrors_def)

lemma mirrors_faults: "mirrors w0 v0 w v \<Longrightarrow> faults w = [] \<and> faults v = []"
  by (simp add: mirrors_def)

lemma content_after_replay:
  assumes "faults w = []" "faults v = []"
  shows "fst (content_after tn sn sid f v) = fst (content_after tn sn sid f w) \<and>
         mirrors w v (snd (content_after tn sn sid f w)) (snd (content_after tn sn sid f v))"
proof -
  let ?w2 = "logging INFO (Processing_subtopic sn sid) w"
  let ?v2 = "logging INFO (Processing_subtopic sn sid) v"
  have m2: "mirrors w v ?w2 ?v2" using assms by (intro mirrors_logging mirrors_refl)
  have f2: "faults ?w2 = []" "faults ?v2 = []" using assms by (simp_all add: logging_def)
  show ?thesis
    using m2
    by (auto simp: content_after_def Let_def safe_upsert_content_ok [OF f2(1)]
        safe_upsert_content_ok [OF f2(2)]
        split: level_file.splits yaml.splits prod.splits option.splits
        intro!: mirrors_logging mirrors_upsert_content)
qed


lemma for_each_rel:
  assumes "R s t"
    and "\<And>x s t. x \<in> set xs \<Longrightarrow> R s t \<Longrightarrow>
           fst (body x t) = fst (body x s) \<and> R (snd (body x s)) (snd (body x t))"
  shows "fst (for_each body xs t) = fst (for_each body xs s) \<and>
         R (snd (for_each body xs s)) (snd (for_each body xs t))"
  using assms
proof (induction xs arbitrary: s t)
  case Nil
  then show ?case by simp
next
  case (Cons x xs)
  obtain r s1 where bs: "body x s = (r, s1)" by (cases "body x s")
  obtain r' t1 where bt: "body x t = (r', t1)" by (cases "body x t")
  from Cons.prems(2) [of x s t] Cons.prems(1) bs bt have same: "r' = r" and R1: "R s1 t1"
    by simp_all
  show ?case
  proof (cases r)
    case None
    have "fst (for_each body xs t1) = fst (for_each body xs s1) \<and>
         R (snd (for_each body xs s1)) (snd (for_each body xs t1))"
    proof (rule Cons.IH [OF R1])
      fix y s' t' assume "y \<in> set xs" "R s' t'"
      then show "fst (body y t') = fst (body y s') \<and> R (snd (body y s')) (snd (body y t'))"
        using Cons.prems(2) [of y s' t'] by simp
    qed
    with bs bt same None show ?thesis by simp
  next
    case (Some e)
    with bs bt same R1 show ?thesis by simp
  qed
qed

lemma question_item_replay:
  assumes "pair_mirrors w0 v0 s t"
  shows "fst (question_item tn sn sid dl q t) = fst (question_item tn sn sid dl q s) \<and>
         pair_mirrors w0 v0 (snd (question_item tn sn sid dl q s)) (snd (question_item tn sn sid dl q t))"
proof -
  obtain b w where s: "s = (b, w)" by (cases s)
  obtain b' v where t: "t = (b', v)" by (cases t)
  from assms s t have b: "b' = b" and m: "mirrors w0 v0 w v" by (simp_all add: pair_mirrors_def)
  from m have f: "faults w = []" "faults v = []" by (simp_all add: mirrors_def)
  show ?thesis
    using m
    by (auto simp: question_item_def s t b pair_mirrors_def Let_def
        safe_upsert_questions_ok [OF f(1)] safe_upsert_questions_ok [OF f(2)]
        split: yaml.splits
        intro!: mirrors_logging mirrors_upsert_questions)
qed

lemma question_level_replay:
  assumes "pair_mirrors w0 v0 s t"
  shows "fst (question_level tn sn sid levels entry t) = fst (question_level tn sn sid levels entry s) \<and>
         pair_mirrors w0 v0 (snd (question_level tn sn sid levels entry s))
           (snd (question_level tn sn sid levels entry t))"
proof -
  obtain yl dl where entry: "entry = (yl, dl)" by (cases entry)
  have loop: "fst (for_each (question_item tn sn sid dl) qs t) =
        fst (for_each (question_item tn sn sid dl) qs s) \<and>
      pair_mirrors w0 v0 (snd (for_each (question_item tn sn sid dl) qs s))
        (snd (for_each (question_item tn sn sid dl) qs t))" for qs
    by (rule for_each_rel [where R = "pair_mirrors w0 v0", OF assms])
       (rule question_item_replay)
  show ?thesis
    unfolding question_level_def entry
    using assms loop
    by (auto split: sum.splits bool.splits yaml.splits option.splits)
qed

lemma question_after_replay:
  assumes "faults w = []" "faults v = []"
  shows "fst (question_after tn sn sid f v) = fst (question_after tn sn sid f w) \<and>
         mirrors w v (snd (question_after tn sn sid f w)) (snd (question_after tn sn sid f v))"
proof -
  let ?w2 = "logging INFO (Processing_subtopic sn sid) w"
  let ?v2 = "logging INFO (Processing_subtopic sn sid) v"
  have m2: "mirrors w v ?w2 ?v2" using assms by (intro mirrors_logging mirrors_refl)
  have loop: "fst (for_each (question_level tn sn sid levels) QUESTION_DIFFICULTY_MAP ([], ?v2)) =
        fst (for_each (question_level tn sn sid levels) QUESTION_DIFFICULTY_MAP ([], ?w2)) \<and>
      pair_mirrors w v (snd (for_each (question_level tn sn sid levels) QUESTION_DIFFICULTY_MAP ([], ?w2)))
        (snd (for_each (question_level tn sn sid levels) QUESTION_DIFFICULTY_MAP ([], ?v2)))"
    for levels
  proof (rule for_each_rel [where R = "pair_mirrors w v"])
    show "pair_mirrors w v ([], ?w2) ([], ?v2)" using m2 by (simp add: pair_mirrors_def)
  next
    fix x s t assume "pair_mirrors w v s t"
    then show "fst (question_level tn sn sid levels x t) = fst (question_level tn sn sid levels x s) \<and>
        pair_mirrors w v (snd (question_level tn sn sid levels x s))
          (snd (question_level tn sn sid levels x t))"
      by (rule question_level_replay)
  qed
  have fin: "fst (question_after tn sn sid (Parsed (YDict kvs)) v) =
        fst (question_after tn sn sid (Parsed (YDict kvs)) w) \<and>
      mirrors w v (snd (question_after tn sn sid (Parsed (YDict kvs)) w))
        (snd (question_after tn sn sid (Parsed (YDict kvs)) v))"
    if lv: "map_of kvs ''by_level'' = Some levels" for kvs levels
  proof -
    obtain r b w3 where lw: "for_each (question_level tn sn sid levels) QUESTION_DIFFICULTY_MAP ([], ?w2) = (r, (b, w3))"
      by (cases "for_each (question_level tn sn sid levels) QUESTION_DIFFICULTY_MAP ([], ?w2)") auto
    obtain r' b' v3 where lvv: "for_each (question_level tn sn sid levels) QUESTION_DIFFICULTY_MAP ([], ?v2) = (r', (b', v3))"
      by (cases "for_each (question_level tn sn sid levels) QUESTION_DIFFICULTY_MAP ([], ?v2)") auto
    from loop [of levels] lw lvv have same: "r' = r" "b' = b" and m3: "mirrors w v w3 v3"
      by (simp_all add: pair_mirrors_def)
    from m3 have f3: "faults w3 = []" "faults v3 = []" by (simp_all add: mirrors_def)
    show ?thesis
      using m3
      by (auto simp: question_after_def Let_def lv lw lvv same
          safe_upsert_questions_ok [OF f3(1)] safe_upsert_questions_ok [OF f3(2)]
          split: option.splits
          intro!: mirrors_logging mirrors_upsert_questions)
  qed
  show ?thesis
  proof (cases f)
    case (Parsed data)
    show ?thesis
    proof (cases data)
      case (YDict kvs)
      show ?thesis
      proof (cases "map_of kvs ''by_level''")
        case None
        then show ?thesis
          using m2 by (simp add: question_after_def Let_def Parsed YDict mirrors_logging)
      next
        case (Some levels)
        from fin [OF this] show ?thesis by (simp add: Parsed YDict)
      qed
    qed (use m2 in \<open>simp_all add: question_after_def Let_def Parsed mirrors_logging\<close>)
  qed (use m2 in \<open>simp_all add: question_after_def Let_def mirrors_logging\<close>)
qed


lemma follows_hier_le: "follows w w' \<Longrightarrow> hier_le w w'"
  by (simp add: follows_def hier_le_def)

lemma follows_faults: "follows w w' \<Longrightarrow> faults w = [] \<Longrightarrow> faults w' = []"
  by (simp add: follows_def)

lemma hier_le_trans: "hier_le a b \<Longrightarrow> hier_le b c \<Longrightarrow> hier_le a c"
  by (auto simp: hier_le_def intro: map_le_trans)

lemma hier_le_mirrors: "mirrors w0 v0 w v \<Longrightarrow> hier_le x v0 \<Longrightarrow> hier_le x v"
  by (simp add: mirrors_def hier_le_def)

lemma for_each_replay:
  assumes step: "\<And>x w v. x \<in> set xs \<Longrightarrow> faults w = [] \<Longrightarrow> faults v = [] \<Longrightarrow>
        hier_le (snd (body x w)) v \<Longrightarrow>
        fst (body x v) = fst (body x w) \<and> mirrors w v (snd (body x w)) (snd (body x v))"
    and mono: "\<And>x w. follows w (snd (body x w))"
    and "faults w = []" "faults v = []" "hier_le (snd (for_each body xs w)) v"
  shows "fst (for_each body xs v) = fst (for_each body xs w) \<and>
         mirrors w v (snd (for_each body xs w)) (snd (for_each body xs v))"
  using assms(3-5) step
proof (induction xs arbitrary: w v)
  case Nil
  then show ?case by (simp add: mirrors_refl)
next
  case (Cons x xs)
  obtain r w1 where bw: "body x w = (r, w1)" by (cases "body x w")
  obtain r' v1 where bv: "body x v = (r', v1)" by (cases "body x v")
  have rest_mono: "follows w1 (snd (for_each body xs w1))"
    by (rule for_each_follows) (rule mono)
  have "hier_le w1 (snd (for_each body (x # xs) w))"
    using bw rest_mono by (cases r) (auto simp: hier_le_def follows_def)
  then have h1: "hier_le w1 v" using Cons.prems(3) by (rule hier_le_trans)
  from Cons.prems(4) [of x w v] Cons.prems(1,2) h1 bw bv
  have same: "r' = r" and m1: "mirrors w v w1 v1" by simp_all
  show ?case
  proof (cases r)
    case (Some e)
    with bw bv same m1 show ?thesis by simp
  next
    case None
    from m1 have f1: "faults w1 = []" "faults v1 = []" by (simp_all add: mirrors_def)
    have "hier_le (snd (for_each body xs w1)) v" using Cons.prems(3) bw None by simp
    then have h2: "hier_le (snd (for_each body xs w1)) v1" using m1 by (simp add: mirrors_def hier_le_def)
    have "fst (for_each body xs v1) = fst (for_each body xs w1) \<and>
         mirrors w1 v1 (snd (for_each body xs w1)) (snd (for_each body xs v1))"
    proof (rule Cons.IH [OF f1 h2])
      fix y w' v' assume "y \<in> set xs" "faults w' = []" "faults v' = []" "hier_le (snd (body y w')) v'"
      then show "fst (body y v') = fst (body y w') \<and> mirrors w' v' (snd (body y w')) (snd (body y v'))"
        using Cons.prems(4) [of y w' v'] by simp
    qed
    with bw bv same None m1 show ?thesis by (auto intro: mirrors_trans)
  qed
qed

lemma get_or_create_subtopic_lookup:
  "get_or_create_subtopic tid sn w = (sid, w1) \<Longrightarrow> subtopics w1 (tid, sn) = Some sid"
  by (auto simp: get_or_create_subtopic_def split: option.splits)

lemma get_or_create_topic_lookup:
  "get_or_create_topic tn w = (tid, w1) \<Longrightarrow> topics w1 tn = Some tid"
  by (auto simp: get_or_create_topic_def split: option.splits)

lemma get_or_create_subtopic_known:
  "subtopics v (tid, sn) = Some sid \<Longrightarrow> get_or_create_subtopic tid sn v = (sid, v)"
  by (simp add: get_or_create_subtopic_def)

lemma get_or_create_topic_known:
  "topics v tn = Some tid \<Longrightarrow> get_or_create_topic tn v = (tid, v)"
  by (simp add: get_or_create_topic_def)

lemma mirrors_shift:
  "trace w1 = trace w \<Longrightarrow> mirrors w1 v a b \<Longrightarrow> mirrors w v a b"
  by (simp add: mirrors_def)

lemma content_subtopic_replay:
  assumes "faults w = []" "faults v = []" "hier_le (snd (content_subtopic tn tid folder w)) v"
  shows "fst (content_subtopic tn tid folder v) = fst (content_subtopic tn tid folder w) \<and>
         mirrors w v (snd (content_subtopic tn tid folder w)) (snd (content_subtopic tn tid folder v))"
proof -
  obtain sn f where folder: "folder = (sn, f)" by (cases folder)
  obtain sid w1 where g: "get_or_create_subtopic tid sn w = (sid, w1)"
    by (cases "get_or_create_subtopic tid sn w")
  note quiet = get_or_create_subtopic_quiet [OF g]
  have f1: "faults w1 = []" using quiet assms(1) by simp
  have cw: "content_subtopic tn tid folder w = content_after tn sn sid f w1"
    using g by (simp add: folder content_subtopic_unfold)
  from content_after_replay [OF f1 f1, of tn sn sid f]
  have "subtopics (snd (content_after tn sn sid f w1)) = subtopics w1" by (simp add: mirrors_def)
  with get_or_create_subtopic_lookup [OF g] assms(3) cw
  have "subtopics v (tid, sn) = Some sid"
    by (auto simp: hier_le_def map_le_def dom_def)
  then have cv: "content_subtopic tn tid folder v = content_after tn sn sid f v"
    by (simp add: folder content_subtopic_unfold get_or_create_subtopic_known)
  from content_after_replay [OF f1 assms(2), of tn sn sid f] quiet
  show ?thesis by (auto simp: cw cv intro: mirrors_shift)
qed

lemma question_subtopic_replay:
  assumes "faults w = []" "faults v = []" "hier_le (snd (question_subtopic tn tid folder w)) v"
  shows "fst (question_subtopic tn tid folder v) = fst (question_subtopic tn tid folder w) \<and>
         mirrors w v (snd (question_subtopic tn tid folder w)) (snd (question_subtopic tn tid folder v))"
proof -
  obtain sn f where folder: "folder = (sn, f)" by (cases folder)
  obtain sid w1 where g: "get_or_create_subtopic tid sn w = (sid, w1)"
    by (cases "get_or_create_subtopic tid sn w")
  note quiet = get_or_create_subtopic_quiet [OF g]
  have f1: "faults w1 = []" using quiet assms(1) by simp
  have cw: "question_subtopic tn tid folder w = question_after tn sn sid f w1"
    using g by (simp add: folder question_subtopic_unfold)
  from question_after_replay [OF f1 f1, of tn sn sid f]
  have "subtopics (snd (question_after tn sn sid f w1)) = subtopics w1" by (simp add: mirrors_def)
  with get_or_create_subtopic_lookup [OF g] assms(3) cw
  have "subtopics v (tid, sn) = Some sid"
    by (auto simp: hier_le_def map_le_def dom_def)
  then have cv: "question_subtopic tn tid folder v = question_after tn sn sid f v"
    by (simp add: folder question_subtopic_unfold get_or_create_subtopic_known)
  from question_after_replay [OF f1 assms(2), of tn sn sid f] quiet
  show ?thesis by (auto simp: cw cv intro: mirrors_shift)
qed



lemma topic_replay:
  assumes sub: "\<And>tid folder w v. faults w = [] \<Longrightarrow> faults v = [] \<Longrightarrow>
        hier_le (snd (sub tid folder w)) v \<Longrightarrow>
        fst (sub tid folder v) = fst (sub tid folder w) \<and>
        mirrors w v (snd (sub tid folder w)) (snd (sub tid folder v))"
    and mono: "\<And>tid folder w. follows w (snd (sub tid folder w))"
    and run: "\<And>w. run w = (case get_or_create_topic tn w of (tid, w1) \<Rightarrow>
        for_each (sub tid) subs (logging INFO (Processing_topic tn tid) w1))"
    and "faults w = []" "faults v = []" "hier_le (snd (run w)) v"
  shows "fst (run v) = fst (run w) \<and> mirrors w v (snd (run w)) (snd (run v))"
proof -
  obtain tid w1 where g: "get_or_create_topic tn w = (tid, w1)"
    by (cases "get_or_create_topic tn w")
  note quiet = get_or_create_topic_quiet [OF g]
  let ?wl = "logging INFO (Processing_topic tn tid) w1"
  let ?vl = "logging INFO (Processing_topic tn tid) v"
  have rw: "run w = for_each (sub tid) subs ?wl" by (simp add: run g)
  have "follows ?wl (snd (for_each (sub tid) subs ?wl))"
    by (rule for_each_follows) (rule mono)
  then have "topics w1 \<subseteq>\<^sub>m topics (snd (run w))" by (simp add: rw follows_def logging_def)
  with get_or_create_topic_lookup [OF g] assms(6)
  have "topics v tn = Some tid" by (auto simp: hier_le_def map_le_def dom_def)
  then have rv: "run v = for_each (sub tid) subs ?vl"
    by (simp add: run get_or_create_topic_known)
  have fl: "faults ?wl = []" "faults ?vl = []" using quiet assms(4,5) by (simp_all add: logging_def)
  have hl: "hier_le (snd (for_each (sub tid) subs ?wl)) ?vl"
    using assms(6) by (simp add: rw hier_le_def logging_def)
  have loop: "fst (for_each (sub tid) subs ?vl) = fst (for_each (sub tid) subs ?wl) \<and>
        mirrors ?wl ?vl (snd (for_each (sub tid) subs ?wl)) (snd (for_each (sub tid) subs ?vl))"
    by (rule for_each_replay [OF _ mono fl hl]) (rule sub)
  have start: "mirrors w v ?wl ?vl"
    using quiet assms(4,5) by (simp add: mirrors_def logging_def)
  from loop have "mirrors w v (snd (for_each (sub tid) subs ?wl)) (snd (for_each (sub tid) subs ?vl))"
    by (blast intro: mirrors_trans [OF start])
  with loop show ?thesis by (simp add: rw rv)
qed

lemma content_topic_replay:
  assumes "faults w = []" "faults v = []" "hier_le (snd (content_topic folder w)) v"
  shows "fst (content_topic folder v) = fst (content_topic folder w) \<and>
         mirrors w v (snd (content_topic folder w)) (snd (content_topic folder v))"
proof -
  obtain tn subs where folder: "folder = (tn, subs)" by (cases folder)
  show ?thesis
  proof (rule topic_replay [where sub = "content_subtopic tn" and tn = tn and subs = subs
        and run = "content_topic folder"])
    show "\<And>w. content_topic folder w = (case get_or_create_topic tn w of (tid, w1) \<Rightarrow>
        for_each (content_subtopic tn tid) subs (logging INFO (Processing_topic tn tid) w1))"
      by (simp add: content_topic_def folder)
  qed (fact content_subtopic_replay content_subtopic_follows assms)+
qed

lemma question_topic_replay:
  assumes "faults w = []" "faults v = []" "hier_le (snd (question_topic folder w)) v"
  shows "fst (question_topic folder v) = fst (question_topic folder w) \<and>
         mirrors w v (snd (question_topic folder w)) (snd (question_topic folder v))"
proof -
  obtain tn subs where folder: "folder = (tn, subs)" by (cases folder)
  show ?thesis
  proof (rule topic_replay [where sub = "question_subtopic tn" and tn = tn and subs = subs
        and run = "question_topic folder"])
    show "\<And>w. question_topic folder w = (case get_or_create_topic tn w of (tid, w1) \<Rightarrow>
        for_each (question_subtopic tn tid) subs (logging INFO (Processing_topic tn tid) w1))"
      by (simp add: question_topic_def folder)
  qed (fact question_subtopic_replay question_subtopic_follows assms)+
qed

lemma ingest_replay:
  assumes topic: "\<And>folder w v. faults w = [] \<Longrightarrow> faults v = [] \<Longrightarrow>
        hier_le (snd (topic folder w)) v \<Longrightarrow>
        fst (topic folder v) = fst (topic folder w) \<and>
        mirrors w v (snd (topic folder w)) (snd (topic folder v))"
    and mono: "\<And>folder w. follows w (snd (topic folder w))"
    and run: "\<And>w. run w = (case for_each topic corpus w of
        (Some e, w') \<Rightarrow> (Some e, w')
      | (None, w') \<Rightarrow> (None, logging INFO Ingestion_completed w'))"
    and "faults w = []" "faults v = []" "hier_le (snd (run w)) v"
  shows "fst (run v) = fst (run w) \<and> mirrors w v (snd (run w)) (snd (run v))"
proof -
  obtain r w1 where lw: "for_each topic corpus w = (r, w1)" by (cases "for_each topic corpus w")
  obtain r' v1 where lv: "for_each topic corpus v = (r', v1)" by (cases "for_each topic corpus v")
  have "hier_le w1 v" using assms(6) lw
    by (cases r) (simp_all add: run hier_le_def logging_def)
  then have "hier_le (snd (for_each topic corpus w)) v" by (simp add: lw)
  then have "fst (for_each topic corpus v) = fst (for_each topic corpus w) \<and>
      mirrors w v (snd (for_each topic corpus w)) (snd (for_each topic corpus v))"
    by (intro for_each_replay [where body = topic] topic mono assms(4,5))
  with lw lv have "r' = r" "mirrors w v w1 v1" by simp_all
  then show ?thesis using lw lv
    by (cases r) (simp_all add: run mirrors_logging)
qed

lemma ingest_content_replay:
  assumes "faults w = []" "faults v = []" "hier_le (snd (ingest_content corpus w)) v"
  shows "fst (ingest_content corpus v) = fst (ingest_content corpus w) \<and>
         mirrors w v (snd (ingest_content corpus w)) (snd (ingest_content corpus v))"
proof (rule ingest_replay [where topic = content_topic and corpus = corpus
      and run = "ingest_content corpus"])
  show "\<And>w. ingest_content corpus w = (case for_each content_topic corpus w of
        (Some e, w') \<Rightarrow> (Some e, w')
      | (None, w') \<Rightarrow> (None, logging INFO Ingestion_completed w'))"
    by (simp add: ingest_content_def)
qed (fact content_topic_replay content_topic_follows assms)+

lemma ingest_questions_replay:
  assumes "faults w = []" "faults v = []" "hier_le (snd (ingest_questions corpus w)) v"
  shows "fst (ingest_questions corpus v) = fst (ingest_questions corpus w) \<and>
         mirrors w v (snd (ingest_questions corpus w)) (snd (ingest_questions corpus v))"
proof (rule ingest_replay [where topic = question_topic and corpus = corpus
      and run = "ingest_questions corpus"])
  show "\<And>w. ingest_questions corpus w = (case for_each question_topic corpus w of
        (Some e, w') \<Rightarrow> (Some e, w')
      | (None, w') \<Rightarrow> (None, logging INFO Ingestion_completed w'))"
    by (simp add: ingest_questions_def)
qed (fact question_topic_replay question_topic_follows assms)+

lemma find_append:
  "find P (xs @ ys) = (case find P xs of None \<Rightarrow> find P ys | Some x \<Rightarrow> Some x)"
  by (induction xs) auto

lemma fold_upd_apply:
  "fold (\<lambda>r t. t(key r \<mapsto> r)) rows t k =
     (case find (\<lambda>r. key r = k) (rev rows) of None \<Rightarrow> t k | Some r \<Rightarrow> Some r)"
proof (induction rows arbitrary: t)
  case Nil
  show ?case by simp
next
  case (Cons x xs)
  have "fold (\<lambda>r t. t(key r \<mapsto> r)) (x # xs) t k =
        fold (\<lambda>r t. t(key r \<mapsto> r)) xs (t(key x \<mapsto> x)) k"
    by (simp only: fold_simps o_apply)
  also have "\<dots> = (case find (\<lambda>r. key r = k) (rev xs) of
        None \<Rightarrow> (t(key x \<mapsto> x)) k | Some r \<Rightarrow> Some r)"
    by (rule Cons.IH)
  also have "\<dots> = (case find (\<lambda>r. key r = k) (rev (x # xs)) of
        None \<Rightarrow> t k | Some r \<Rightarrow> Some r)"
    by (simp add: find_append split: option.splits)
  finally show ?case .
qed

lemma fold_upd_idem:
  "fold (\<lambda>r t. t(key r \<mapsto> r)) rows (fold (\<lambda>r t. t(key r \<mapsto> r)) rows t) =
   fold (\<lambda>r t. t(key r \<mapsto> r)) rows t"
proof (rule ext)
  fix k
  show "fold (\<lambda>r t. t(key r \<mapsto> r)) rows (fold (\<lambda>r t. t(key r \<mapsto> r)) rows t) k =
        fold (\<lambda>r t. t(key r \<mapsto> r)) rows t k"
    unfolding fold_upd_apply by (simp split: option.splits)
qed

lemma find_Some_set: "find P xs = Some x \<Longrightarrow> P x \<and> x \<in> set xs"
  by (induction xs) (auto split: if_splits)

lemma find_None_set: "find P xs = None \<Longrightarrow> x \<in> set xs \<Longrightarrow> \<not> P x"
  by (induction xs) (auto split: if_splits)

lemma fold_upd_stored:
  assumes "\<forall>r\<in>set rows. t (key r) = Some r"
  shows "fold (\<lambda>r t. t(key r \<mapsto> r)) rows t = t"
proof (rule ext)
  fix k
  show "fold (\<lambda>r t. t(key r \<mapsto> r)) rows t k = t k"
  proof (cases "find (\<lambda>r. key r = k) (rev rows)")
    case None
    then show ?thesis by (simp only: fold_upd_apply option.case)
  next
    case (Some r)
    from find_Some_set [OF Some] assms have "t k = Some r" by auto
    with Some show ?thesis by (simp only: fold_upd_apply option.case)
  qed
qed

lemma fold_upd_consistent:
  assumes "consistent_on key rows" "r \<in> set rows"
  shows "fold (\<lambda>r t. t(key r \<mapsto> r)) rows t (key r) = Some r"
proof (cases "find (\<lambda>r'. key r' = key r) (rev rows)")
  case None
  from find_None_set [OF None, of r] assms(2) show ?thesis by simp
next
  case (Some r')
  from find_Some_set [OF Some] have "key r' = key r" "r' \<in> set rows" by simp_all
  with assms have "r' = r" by (auto simp: consistent_on_def list_all_iff)
  with Some show ?thesis by (simp only: fold_upd_apply option.case)
qed

lemma content_writes_noop_stored:
  "\<forall>r\<in>set (content_rows_of evs). tbl (content_key r) = Some r \<Longrightarrow> content_writes_noop evs tbl"
proof (induction evs)
  case Nil
  show ?case by simp
next
  case (Cons e evs)
  have here: "\<forall>r\<in>set (written_content e). tbl (content_key r) = Some r"
    using Cons.prems by (simp add: content_rows_of_def)
  then have "upsert_content (written_content e) tbl = tbl"
    unfolding upsert_content_def by (rule fold_upd_stored)
  moreover have "content_writes_noop evs tbl"
    using Cons.prems by (intro Cons.IH) (simp add: content_rows_of_def)
  ultimately show ?case using here by (simp add: list_all_iff)
qed

lemma question_writes_noop_stored:
  "\<forall>r\<in>set (question_rows_of evs). tbl (question_hash r) = Some r \<Longrightarrow> question_writes_noop evs tbl"
proof (induction evs)
  case Nil
  show ?case by simp
next
  case (Cons e evs)
  have here: "\<forall>r\<in>set (written_questions e). tbl (question_hash r) = Some r"
    using Cons.prems by (simp add: question_rows_of_def)
  then have "upsert_questions (written_questions e) tbl = tbl"
    unfolding upsert_questions_def by (rule fold_upd_stored)
  moreover have "question_writes_noop evs tbl"
    using Cons.prems by (intro Cons.IH) (simp add: question_rows_of_def)
  ultimately show ?case using here by (simp add: list_all_iff)
qed

lemma follows_tables:
  "follows w w' \<Longrightarrow>
   content w' = upsert_content (content_rows_of (new_events w w')) (content w) \<and>
   questions w' = upsert_questions (question_rows_of (new_events w w')) (questions w)"
  by (auto simp: follows_def new_events_def)

lemma mirrors_new_events: "mirrors w v w' v' \<Longrightarrow> new_events v v' = new_events w w'"
  by (auto simp: mirrors_def new_events_def)

lemma replays_run:
  assumes replay: "\<And>w v. faults w = [] \<Longrightarrow> faults v = [] \<Longrightarrow> hier_le (snd (run w)) v \<Longrightarrow>
        fst (run v) = fst (run w) \<and> mirrors w v (snd (run w)) (snd (run v))"
    and mono: "\<And>w. follows w (snd (run w))"
    and "faults w = []"
  shows "replays run w"
proof -
  let ?w1 = "snd (run w)"
  let ?w2 = "snd (run ?w1)"
  let ?C = "content_rows_of (new_events w ?w1)"
  let ?Q = "question_rows_of (new_events w ?w1)"
  have f1: "faults ?w1 = []" using mono [of w] assms(3) by (rule follows_faults)
  have h: "hier_le ?w1 ?w1" by (simp add: hier_le_def)
  from replay [OF assms(3) f1 h]
  have res: "fst (run ?w1) = fst (run w)" and m: "mirrors w ?w1 ?w1 ?w2" by blast+
  from m have ev: "new_events ?w1 ?w2 = new_events w ?w1" by (rule mirrors_new_events)
  from m have hier: "topics ?w2 = topics ?w1" "subtopics ?w2 = subtopics ?w1"
    by (simp_all only: mirrors_def)
  note first = follows_tables [OF mono [of w]]
  note second = follows_tables [OF mono [of ?w1], unfolded ev]
  have c: "content ?w2 = content ?w1"
  proof -
    have "content ?w2 = upsert_content ?C (content ?w1)" using second by (rule conjunct1)
    also have "content ?w1 = upsert_content ?C (content w)" using first by (rule conjunct1)
    also have "upsert_content ?C (upsert_content ?C (content w)) = upsert_content ?C (content w)"
      by (simp only: upsert_content_def fold_upd_idem)
    also have "upsert_content ?C (content w) = content ?w1" using first by (simp only:)
    finally show ?thesis .
  qed
  have q: "questions ?w2 = questions ?w1"
  proof -
    have "questions ?w2 = upsert_questions ?Q (questions ?w1)" using second by (rule conjunct2)
    also have "questions ?w1 = upsert_questions ?Q (questions w)" using first by (rule conjunct2)
    also have "upsert_questions ?Q (upsert_questions ?Q (questions w)) = upsert_questions ?Q (questions w)"
      by (simp only: upsert_questions_def fold_upd_idem)
    also have "upsert_questions ?Q (questions w) = questions ?w1" using first by (simp only:)
    finally show ?thesis .
  qed
  show ?thesis
    unfolding replays_def Let_def same_store_def by (intro conjI res ev hier c q)
qed

lemma ingest_content_replays:
  assumes "faults w = []"
  shows "replays (ingest_content corpus) w"
proof (rule replays_run [where run = "ingest_content corpus"])
  show "faults w = []" by (fact assms)
qed (fact ingest_content_replay ingest_content_follows)+

lemma ingest_questions_replays:
  assumes "faults w = []"
  shows "replays (ingest_questions corpus) w"
proof (rule replays_run [where run = "ingest_questions corpus"])
  show "faults w = []" by (fact assms)
qed (fact ingest_questions_replay ingest_questions_follows)+

lemma content_rerun_noop:
  assumes "follows w w'" "consistent_on content_key (content_rows_of (new_events w w'))"
  shows "content_writes_noop (new_events w w') (content w')"
proof (rule content_writes_noop_stored, rule ballI)
  fix r assume r: "r \<in> set (content_rows_of (new_events w w'))"
  have "content w' = upsert_content (content_rows_of (new_events w w')) (content w)"
    using follows_tables [OF assms(1)] by (rule conjunct1)
  then show "content w' (content_key r) = Some r"
    using fold_upd_consistent [OF assms(2) r, of "content w"]
    by (simp only: upsert_content_def)
qed

lemma questions_rerun_noop:
  assumes "follows w w'" "consistent_on question_hash (question_rows_of (new_events w w'))"
  shows "question_writes_noop (new_events w w') (questions w')"
proof (rule question_writes_noop_stored, rule ballI)
  fix r assume r: "r \<in> set (question_rows_of (new_events w w'))"
  have "questions w' = upsert_questions (question_rows_of (new_events w w')) (questions w)"
    using follows_tables [OF assms(1)] by (rule conjunct2)
  then show "questions w' (question_hash r) = Some r"
    using fold_upd_consistent [OF assms(2) r, of "questions w"]
    by (simp only: upsert_questions_def)
qed

text \<open>
  C1, as the code has it. When no write fails, a second run over the same corpus ends
  as the first did, sends the same requests and logs the same lines, and leaves the
  topics, subtopics, content and questions tables exactly as the first run left them,
  hashes included. If no two different rows written by the run share a conflict key
  (subtopic and difficulty for content, the question hash for questions), every row
  the second run writes is the row already stored under its key.
\<close>

theorem second_run_replays_first:
  "(faults w = [] \<longrightarrow>
      replays (ingest_content corpus) w \<and> replays (ingest_questions qcorpus) w) \<and>
   (faults w = [] \<and>
    consistent_on content_key (content_rows_of (new_events w (snd (ingest_content corpus w)))) \<longrightarrow>
      content_writes_noop
        (new_events (snd (ingest_content corpus w))
           (snd (ingest_content corpus (snd (ingest_content corpus w)))))
        (content (snd (ingest_content corpus w)))) \<and>
   (faults w = [] \<and>
    consistent_on question_hash (question_rows_of (new_events w (snd (ingest_questions qcorpus w)))) \<longrightarrow>
      question_writes_noop
        (new_events (snd (ingest_questions qcorpus w))
           (snd (ingest_questions qcorpus (snd (ingest_questions qcorpus w)))))
        (questions (snd (ingest_questions qcorpus w))))"
proof -
  have c1: "replays (ingest_content corpus) w \<and> replays (ingest_questions qcorpus) w"
    if "faults w = []"
    using that by (simp add: ingest_content_replays ingest_questions_replays)
  have c2: "content_writes_noop
        (new_events (snd (ingest_content corpus w))
           (snd (ingest_content corpus (snd (ingest_content corpus w)))))
        (content (snd (ingest_content corpus w)))"
    if f: "faults w = []"
      and c: "consistent_on content_key (content_rows_of (new_events w (snd (ingest_content corpus w))))"
  proof -
    from ingest_content_replays [OF f, of corpus]
    have "new_events (snd (ingest_content corpus w))
           (snd (ingest_content corpus (snd (ingest_content corpus w)))) =
          new_events w (snd (ingest_content corpus w))"
      by (simp only: replays_def Let_def)
    with content_rerun_noop [OF ingest_content_follows c] show ?thesis by (simp only:)
  qed
  have c3: "question_writes_noop
        (new_events (snd (ingest_questions qcorpus w))
           (snd (ingest_questions qcorpus (snd (ingest_questions qcorpus w)))))
        (questions (snd (ingest_questions qcorpus w)))"
    if f: "faults w = []"
      and c: "consistent_on question_hash (question_rows_of (new_events w (snd (ingest_questions qcorpus w))))"
  proof -
    from ingest_questions_replays [OF f, of qcorpus]
    have "new_events (snd (ingest_questions qcorpus w))
           (snd (ingest_questions qcorpus (snd (ingest_questions qcorpus w)))) =
          new_events w (snd (ingest_questions qcorpus w))"
      by (simp only: replays_def Let_def)
    with questions_rerun_noop [OF ingest_questions_follows c] show ?thesis by (simp only:)
  qed
  from c1 c2 c3 show ?thesis by blast
qed

text \<open>
  C1 as claimed fails: the same question stands under \<open>Sub1\<close> and \<open>Sub2\<close>, so its two
  rows share one hash and the first run ends with the row of \<open>Sub2\<close> stored. The
  second run then writes the row of \<open>Sub1\<close> over it: a write that changes the stored
  row, although the store ends as it was.
\<close>

theorem second_run_overwrites_counterexample:
  "faults empty_world = [] \<and>
   fst (ingest_questions
          [(''TopicA'', [(''Sub1'', Parsed (YDict [(''by_level'', YDict [(''beginner'', YDict [(''questions'', YList [YDict [(''type'', YStr ''mcq'')]])])])])), (''Sub2'', Parsed (YDict [(''by_level'', YDict [(''beginner'', YDict [(''questions'', YList [YDict [(''type'', YStr ''mcq'')]])])])]))])]
          empty_world) = None \<and>
   \<not> question_writes_noop
       (new_events
          (snd (ingest_questions
                  [(''TopicA'', [(''Sub1'', Parsed (YDict [(''by_level'', YDict [(''beginner'', YDict [(''questions'', YList [YDict [(''type'', YStr ''mcq'')]])])])])), (''Sub2'', Parsed (YDict [(''by_level'', YDict [(''beginner'', YDict [(''questions'', YList [YDict [(''type'', YStr ''mcq'')]])])])]))])]
                  empty_world))
          (snd (ingest_questions
                  [(''TopicA'', [(''Sub1'', Parsed (YDict [(''by_level'', YDict [(''beginner'', YDict [(''questions'', YList [YDict [(''type'', YStr ''mcq'')]])])])])), (''Sub2'', Parsed (YDict [(''by_level'', YDict [(''beginner'', YDict [(''questions'', YList [YDict [(''type'', YStr ''mcq'')]])])])]))])]
                  (snd (ingest_questions
                          [(''TopicA'', [(''Sub1'', Parsed (YDict [(''by_level'', YDict [(''beginner'', YDict [(''questions'', YList [YDict [(''type'', YStr ''mcq'')]])])])])), (''Sub2'', Parsed (YDict [(''by_level'', YDict [(''beginner'', YDict [(''questions'', YList [YDict [(''type'', YStr ''mcq'')]])])])]))])]
                          empty_world)))))
       (questions
          (snd (ingest_questions
                  [(''TopicA'', [(''Sub1'', Parsed (YDict [(''by_level'', YDict [(''beginner'', YDict [(''questions'', YList [YDict [(''type'', YStr ''mcq'')]])])])])), (''Sub2'', Parsed (YDict [(''by_level'', YDict [(''beginner'', YDict [(''questions'', YList [YDict [(''type'', YStr ''mcq'')]])])])]))])]
                  empty_world)))"
  by (simp add: ingest_questions_def question_topic_def question_subtopic_def question_level_def
      question_item_def QUESTION_DIFFICULTY_MAP_def safe_upsert_questions_def MAX_RETRIES_def
      numeral_3_eq_3 question_attempt_def attempt_fails_def get_or_create_topic_def
      get_or_create_subtopic_def empty_world_def logging_def Let_def dict_get_def BATCH_SIZE_def
      upsert_questions_def build_question_row_def new_events_def written_questions_def)

theorem second_run_replays_first_witness:
  "faults empty_world = [] \<and>
   consistent_on content_key
     (content_rows_of (new_events empty_world (snd (ingest_content [(''TopicA'', [(''Sub1'', Parsed (YDict [(''beginner'', YDict [(''title'', YStr ''T1'')]), (''advanced'', YDict [(''title'', YStr ''T3'')])]))])] empty_world)))) \<and>
   consistent_on question_hash
     (question_rows_of (new_events empty_world (snd (ingest_questions [(''TopicA'', [(''Sub1'', Parsed (YDict [(''by_level'', YDict [(''beginner'', YDict [(''questions'', YList [YDict [(''type'', YStr ''mcq'')]])])])]))])] empty_world)))) \<and>
   (replays (ingest_content [(''TopicA'', [(''Sub1'', Parsed (YDict [(''beginner'', YDict [(''title'', YStr ''T1'')]), (''advanced'', YDict [(''title'', YStr ''T3'')])]))])]) empty_world \<and> replays (ingest_questions [(''TopicA'', [(''Sub1'', Parsed (YDict [(''by_level'', YDict [(''beginner'', YDict [(''questions'', YList [YDict [(''type'', YStr ''mcq'')]])])])]))])]) empty_world) \<and>
   content_writes_noop
     (new_events (snd (ingest_content [(''TopicA'', [(''Sub1'', Parsed (YDict [(''beginner'', YDict [(''title'', YStr ''T1'')]), (''advanced'', YDict [(''title'', YStr ''T3'')])]))])] empty_world))
        (snd (ingest_content [(''TopicA'', [(''Sub1'', Parsed (YDict [(''beginner'', YDict [(''title'', YStr ''T1'')]), (''advanced'', YDict [(''title'', YStr ''T3'')])]))])] (snd (ingest_content [(''TopicA'', [(''Sub1'', Parsed (YDict [(''beginner'', YDict [(''title'', YStr ''T1'')]), (''advanced'', YDict [(''title'', YStr ''T3'')])]))])] empty_world)))))
     (content (snd (ingest_content [(''TopicA'', [(''Sub1'', Parsed (YDict [(''beginner'', YDict [(''title'', YStr ''T1'')]), (''advanced'', YDict [(''title'', YStr ''T3'')])]))])] empty_world))) \<and>
   question_writes_noop
     (new_events (snd (ingest_questions [(''TopicA'', [(''Sub1'', Parsed (YDict [(''by_level'', YDict [(''beginner'', YDict [(''questions'', YList [YDict [(''type'', YStr ''mcq'')]])])])]))])] empty_world))
        (snd (ingest_questions [(''TopicA'', [(''Sub1'', Parsed (YDict [(''by_level'', YDict [(''beginner'', YDict [(''questions'', YList [YDict [(''type'', YStr ''mcq'')]])])])]))])] (snd (ingest_questions [(''TopicA'', [(''Sub1'', Parsed (YDict [(''by_level'', YDict [(''beginner'', YDict [(''questions'', YList [YDict [(''type'', YStr ''mcq'')]])])])]))])] empty_world)))))
     (questions (snd (ingest_questions [(''TopicA'', [(''Sub1'', Parsed (YDict [(''by_level'', YDict [(''beginner'', YDict [(''questions'', YList [YDict [(''type'', YStr ''mcq'')]])])])]))])] empty_world)))"
proof -
  have h1: "faults empty_world = []" by (simp add: empty_world_def)
  have h2: "consistent_on content_key
     (content_rows_of (new_events empty_world (snd (ingest_content [(''TopicA'', [(''Sub1'', Parsed (YDict [(''beginner'', YDict [(''title'', YStr ''T1'')]), (''advanced'', YDict [(''title'', YStr ''T3'')])]))])] empty_world))))"
    by (simp add: ingest_content_def content_topic_def content_subtopic_def content_level_def
      CONTENT_DIFFICULTY_MAP_def safe_upsert_content_def MAX_RETRIES_def numeral_3_eq_3
      content_attempt_def attempt_fails_def get_or_create_topic_def get_or_create_subtopic_def
      empty_world_def logging_def Let_def upsert_content_def content_key_def build_content_row_def
      new_events_def content_rows_of_def written_content_def consistent_on_def)
  have h3: "consistent_on question_hash
     (question_rows_of (new_events empty_world (snd (ingest_questions [(''TopicA'', [(''Sub1'', Parsed (YDict [(''by_level'', YDict [(''beginner'', YDict [(''questions'', YList [YDict [(''type'', YStr ''mcq'')]])])])]))])] empty_world))))"
    by (simp add: ingest_questions_def question_topic_def question_subtopic_def question_level_def
      question_item_def QUESTION_DIFFICULTY_MAP_def safe_upsert_questions_def MAX_RETRIES_def
      numeral_3_eq_3 question_attempt_def attempt_fails_def get_or_create_topic_def
      get_or_create_subtopic_def empty_world_def logging_def Let_def dict_get_def BATCH_SIZE_def
      upsert_questions_def build_question_row_def new_events_def question_rows_of_def
      written_questions_def consistent_on_def)
  note t = second_run_replays_first [where w = empty_world and corpus = "[(''TopicA'', [(''Sub1'', Parsed (YDict [(''beginner'', YDict [(''title'', YStr ''T1'')]), (''advanced'', YDict [(''title'', YStr ''T3'')])]))])]" and qcorpus = "[(''TopicA'', [(''Sub1'', Parsed (YDict [(''by_level'', YDict [(''beginner'', YDict [(''questions'', YList [YDict [(''type'', YStr ''mcq'')]])])])]))])]"]
  from t h1 h2 h3 show ?thesis by blast
qed


subsection \<open>The canonical serialisation can be read back\<close>













lemma hex_digit_code: "n < 16 \<Longrightarrow> (of_char (hex_digit n) :: nat) = (if n < 10 then 48 + n else 87 + n)"
  by (simp add: hex_digit_def of_char_of)

lemma hex_digit_inject: "m < 16 \<Longrightarrow> n < 16 \<Longrightarrow> hex_digit m = hex_digit n \<Longrightarrow> m = n"
proof -
  assume a: "m < 16" "n < 16" "hex_digit m = hex_digit n"
  then have "(of_char (hex_digit m) :: nat) = of_char (hex_digit n)" by simp
  with a(1,2) show ?thesis by (simp add: hex_digit_code split: if_splits)
qed

lemma hex_digit_not_special:
  "n < 16 \<Longrightarrow> hex_digit n \<noteq> CHR 0x22 \<and> hex_digit n \<noteq> CHR 0x5C"
proof -
  assume a: "n < 16"
  have "(of_char (hex_digit n) :: nat) \<noteq> 34 \<and> (of_char (hex_digit n) :: nat) \<noteq> 92"
    using a by (simp add: hex_digit_code)
  then show ?thesis by auto
qed

lemma escape_nonempty: "json_escape_char c \<noteq> []"
  by (simp add: json_escape_char_def)

lemma escape_no_quote_first: "hd (json_escape_char c) \<noteq> CHR 0x22"
  by (simp add: json_escape_char_def)

lemma escape_unique:
  assumes "json_escape_char c @ u = json_escape_char d @ v"
  shows "c = d \<and> u = v"
proof -
  have lt: "(of_char x :: nat) div 16 < 16" "(of_char x :: nat) mod 16 < 16" for x :: char
    using of_char_mod_256 [of x, where ?'a = nat] by (simp_all add: less_mult_imp_div_less)
  have code: "c = d" if "(of_char c :: nat) div 16 = of_char d div 16"
      "(of_char c :: nat) mod 16 = of_char d mod 16"
  proof -
    have "(of_char c :: nat) = of_char d"
      using that by (metis div_mult_mod_eq)
    then show ?thesis by simp
  qed
  show ?thesis
    using assms code hex_digit_inject [OF lt(1) lt(1), of c d] hex_digit_inject [OF lt(2) lt(2), of c d]
    by (auto simp: json_escape_char_def split: if_splits)
qed

lemma escaped_unique:
  assumes "concat (map json_escape_char s) @ CHR 0x22 # r =
           concat (map json_escape_char t) @ CHR 0x22 # r'"
  shows "s = t \<and> r = r'"
  using assms
proof (induction s arbitrary: t)
  case Nil
  show ?case
  proof (cases t)
    case Nil
    with Nil.prems show ?thesis by simp
  next
    case (Cons d t')
    obtain e es where e: "json_escape_char d = e # es"
      using escape_nonempty [of d] by (cases "json_escape_char d") auto
    with escape_no_quote_first [of d] have "e \<noteq> CHR 0x22" by simp
    with Nil.prems Cons e show ?thesis by simp
  qed
next
  case (Cons c s')
  show ?case
  proof (cases t)
    case Nil
    obtain e es where e: "json_escape_char c = e # es"
      using escape_nonempty [of c] by (cases "json_escape_char c") auto
    with escape_no_quote_first [of c] have "e \<noteq> CHR 0x22" by simp
    with Cons.prems Nil e show ?thesis by simp
  next
    case (Cons d t')
    with Cons.prems have
      "json_escape_char c @ (concat (map json_escape_char s') @ CHR 0x22 # r) =
       json_escape_char d @ (concat (map json_escape_char t') @ CHR 0x22 # r')" by simp
    from escape_unique [OF this] have cd: "c = d"
      and rest: "concat (map json_escape_char s') @ CHR 0x22 # r =
                 concat (map json_escape_char t') @ CHR 0x22 # r'" by simp_all
    from Cons.IH [OF rest] cd Cons show ?thesis by simp
  qed
qed

lemma json_str_unique: "json_str s @ r = json_str t @ r' \<Longrightarrow> s = t \<and> r = r'"
  using escaped_unique [of s r t r'] by (simp add: json_str_def)

lemma json_str_inject: "json_str s = json_str t \<Longrightarrow> s = t"
  using json_str_unique [of s "[]" t "[]"] by simp

























end
